theory Spec2Isabelle
  imports Main "HOL-Library.Sublist" "HOL-Library.Multiset"
begin

chapter \<open>The window of jsdom and its virtual console\<close>

text \<open>
  A shallow embedding of the runtime-management part of jsdom's \<^verbatim>\<open>Window\<close> (the function
  \<^verbatim>\<open>Window\<close> of \<^verbatim>\<open>lib/jsdom/living/index.js\<close>: timers, \<^verbatim>\<open>close\<close>, the deferred load event, the
  wrapped \<^verbatim>\<open>XMLHttpRequest\<close>, \<^verbatim>\<open>getComputedStyle\<close>) and of the class \<^verbatim>\<open>VirtualConsole\<close>, with the
  properties proved of them. The definitions come first, component by component; the theorems
  follow. State is passed explicitly, exceptions are values of \<open>js_error\<close>, and what the
  code does to its collaborators (sinks, the host scheduler, the document, the transport)
  is recorded in traces.
\<close>

section \<open>JavaScript values, objects and calls\<close>

text \<open>
  The window module and the virtual console are JavaScript. Values are modelled by the
  datatype \<open>val\<close>; an object is a reference into a heap of property tables. A property
  table lists the own enumerable properties in key order (what \<^verbatim>\<open>Object.keys\<close> sees),
  and separately the properties that a lookup finds but \<^verbatim>\<open>Object.keys\<close> does not
  (inherited or non-enumerable ones). The keys of a table are distinct.

  A function value \<open>Fn f\<close> is a function of the embedder (a sink method). Its body is not
  part of the program: a call is recorded in a trace, and the predicate \<open>fn_env\<close> says
  whether function \<open>f\<close> throws when it is called. \<open>ListenerFn\<close> is a listener closure of
  the router as seen from outside, \<open>Timer t\<close> a timer handle of the host scheduler.
\<close>

datatype val =
    Undefined
  | Null
  | Bool bool
  | Num int
  | Str string
  | Ref nat
  | Fn nat
  | ListenerFn
  | Timer nat

record obj =
  own :: "(string \<times> val) list"
  inherited :: "(string \<times> val) list"

type_synonym heap = "nat \<Rightarrow> obj option"

type_synonym fn_env = "nat \<Rightarrow> bool"

datatype js_error =
    TypeError
  | Thrown nat
  | UnhandledError val
  | Failure string

datatype call = Call nat val "val list"

fun truthy :: "val \<Rightarrow> bool" where
  "truthy Undefined = False"
| "truthy Null = False"
| "truthy (Bool b) = b"
| "truthy (Num n) = (n \<noteq> 0)"
| "truthy (Str s) = (s \<noteq> [])"
| "truthy (Ref r) = True"
| "truthy (Fn f) = True"
| "truthy ListenerFn = True"
| "truthy (Timer t) = True"

fun is_function :: "val \<Rightarrow> bool" where
  "is_function (Fn f) = True"
| "is_function ListenerFn = True"
| "is_function v = False"

text \<open>\<^verbatim>\<open>arguments[i]\<close>, and a parameter that was not passed: \<^verbatim>\<open>undefined\<close>.\<close>

fun arg :: "val list \<Rightarrow> nat \<Rightarrow> val" where
  "arg [] i = Undefined"
| "arg (v # vs) 0 = v"
| "arg (v # vs) (Suc i) = arg vs i"

text \<open>
  \<^verbatim>\<open>v[name]\<close>: reading a property of \<^verbatim>\<open>undefined\<close> or \<^verbatim>\<open>null\<close> throws a TypeError; an
  own property shadows an inherited one; a missing property reads as \<^verbatim>\<open>undefined\<close>.
\<close>

fun get_prop :: "heap \<Rightarrow> val \<Rightarrow> string \<Rightarrow> js_error + val" where
  "get_prop h Undefined name = Inl TypeError"
| "get_prop h Null name = Inl TypeError"
| "get_prop h (Ref r) name =
     (case h r of
        None \<Rightarrow> Inr Undefined
      | Some ob \<Rightarrow>
          (case map_of (own ob) name of
             Some v \<Rightarrow> Inr v
           | None \<Rightarrow>
               (case map_of (inherited ob) name of
                  Some v \<Rightarrow> Inr v
                | None \<Rightarrow> Inr Undefined)))"
| "get_prop h v name = Inr Undefined"

text \<open>
  \<^verbatim>\<open>Object.keys(v)\<close>: a TypeError on \<^verbatim>\<open>undefined\<close> and \<^verbatim>\<open>null\<close>, the own enumerable keys
  of an object in order. The index keys of a string hold one-character strings, never a
  function, and the other primitives have no keys; \<open>sendTo\<close> only looks for functions,
  so they are left out.
\<close>

fun object_keys :: "heap \<Rightarrow> val \<Rightarrow> js_error + string list" where
  "object_keys h Undefined = Inl TypeError"
| "object_keys h Null = Inl TypeError"
| "object_keys h (Ref r) =
     (case h r of None \<Rightarrow> Inr [] | Some ob \<Rightarrow> Inr (map fst (own ob)))"
| "object_keys h v = Inr []"

text \<open>
  Calling the value \<open>f\<close> with receiver \<open>this\<close>: a TypeError when \<open>f\<close> is not callable.
  A call of an embedder function is recorded and throws when \<open>fn_env\<close> says so. The
  router never calls a value it handed out as \<open>ListenerFn\<close>; such a call is left
  without effect.
\<close>

fun call_fn :: "fn_env \<Rightarrow> val \<Rightarrow> val \<Rightarrow> val list \<Rightarrow> (js_error + unit) \<times> call list" where
  "call_fn env (Fn f) this args =
     (if env f then (Inl (Thrown f), [Call f this args]) else (Inr (), [Call f this args]))"
| "call_fn env ListenerFn this args = (Inr (), [])"
| "call_fn env v this args = (Inl TypeError, [])"

section \<open>The virtual console (console router)\<close>

text \<open>
  \<^verbatim>\<open>VirtualConsole\<close> extends Node's \<^verbatim>\<open>EventEmitter\<close>. The emitter keeps, per event name,
  the listeners in registration order; here it is one list of (event name, listener)
  pairs in registration order. The three closures the class creates are the three
  constructors of \<open>listener\<close>, each with the variables it captures:
  \<^item> \<open>NoOp\<close>: \<^verbatim>\<open>() => { }\<close> of the constructor;
  \<^item> \<open>Forward anyConsole method arguments\<close>:
    \<^verbatim>\<open>() => { anyConsole[method].apply(anyConsole, arguments); }\<close>. An arrow function has
    no \<^verbatim>\<open>arguments\<close> of its own, so the name denotes the \<^verbatim>\<open>arguments\<close> object of the
    enclosing call of \<^verbatim>\<open>sendTo\<close>, which the closure captures (the module is strict, so
    assigning to \<^verbatim>\<open>options\<close> does not change it);
  \<^item> \<open>JsdomError anyConsole\<close>: \<^verbatim>\<open>e => anyConsole.error(e.stack, e.detail)\<close>.
\<close>

datatype listener =
    NoOp
  | Forward val string "val list"
  | JsdomError val

type_synonym router = "(string \<times> listener) list"

text \<open>Running one listener on the arguments of an emitted event.\<close>

fun invoke :: "fn_env \<Rightarrow> heap \<Rightarrow> listener \<Rightarrow> val list \<Rightarrow> (js_error + unit) \<times> call list" where
  "invoke env h NoOp args = (Inr (), [])"
| "invoke env h (Forward anyConsole method arguments) args =
     (case get_prop h anyConsole method of
        Inl e \<Rightarrow> (Inl e, [])
      | Inr f \<Rightarrow> call_fn env f anyConsole arguments)"
| "invoke env h (JsdomError anyConsole) args =
     (case get_prop h anyConsole ''error'' of
        Inl e \<Rightarrow> (Inl e, [])
      | Inr f \<Rightarrow>
          (case get_prop h (arg args 0) ''stack'' of
             Inl e \<Rightarrow> (Inl e, [])
           | Inr stack \<Rightarrow>
               (case get_prop h (arg args 0) ''detail'' of
                  Inl e \<Rightarrow> (Inl e, [])
                | Inr detail \<Rightarrow> call_fn env f anyConsole [stack, detail])))"

text \<open>
  \<^verbatim>\<open>EventEmitter.prototype.emit\<close>: the listeners of the event run in registration order
  on the emitted arguments; an exception of a listener ends the emission and reaches the
  caller. Emitting \<^verbatim>\<open>error\<close> with no listener for it throws. The result is whether the
  event had a listener.
\<close>

fun run_listeners :: "fn_env \<Rightarrow> heap \<Rightarrow> listener list \<Rightarrow> val list \<Rightarrow> (js_error + unit) \<times> call list" where
  "run_listeners env h [] args = (Inr (), [])"
| "run_listeners env h (l # ls) args =
     (case invoke env h l args of
        (Inl e, tr) \<Rightarrow> (Inl e, tr)
      | (Inr u, tr) \<Rightarrow>
          (case run_listeners env h ls args of (res, tr') \<Rightarrow> (res, tr @ tr')))"

definition listeners :: "router \<Rightarrow> string \<Rightarrow> listener list" where
  "listeners r name = map snd (filter (\<lambda>p. fst p = name) r)"

definition emit :: "fn_env \<Rightarrow> heap \<Rightarrow> router \<Rightarrow> string \<Rightarrow> val list \<Rightarrow> (js_error + bool) \<times> call list" where
  "emit env h r name args =
     (if name = ''error'' \<and> listeners r ''error'' = [] then (Inl (UnhandledError (arg args 0)), [])
      else if listeners r name = [] then (Inr False, [])
      else (case run_listeners env h (listeners r name) args of
              (Inl e, tr) \<Rightarrow> (Inl e, tr)
            | (Inr u, tr) \<Rightarrow> (Inr True, tr)))"

text \<open>
  \<^verbatim>\<open>EventEmitter.prototype.on\<close>: when the emitter has a listener for \<^verbatim>\<open>newListener\<close>, that
  event is emitted first with the event name and the listener; then the listener is
  appended.
\<close>

definition on :: "fn_env \<Rightarrow> heap \<Rightarrow> router \<Rightarrow> string \<Rightarrow> listener \<Rightarrow> (js_error + router) \<times> call list" where
  "on env h r name l =
     (if listeners r ''newListener'' = [] then (Inr (r @ [(name, l)]), [])
      else (case emit env h r ''newListener'' [Str name, ListenerFn] of
              (Inl e, tr) \<Rightarrow> (Inl e, tr)
            | (Inr b, tr) \<Rightarrow> (Inr (r @ [(name, l)]), tr)))"

text \<open>The constructor: an emitter with the standing no-op listener for \<^verbatim>\<open>error\<close>.\<close>

definition constructor :: router where
  "constructor = [(''error'', NoOp)]"

text \<open>
  \<^verbatim>\<open>sendTo(anyConsole, options)\<close>, called with the argument list \<open>arguments\<close>. The loop
  over \<^verbatim>\<open>Object.keys(anyConsole)\<close> registers a forwarding listener for each key whose
  value is a function.
\<close>

fun sendTo_loop :: "fn_env \<Rightarrow> heap \<Rightarrow> router \<Rightarrow> val list \<Rightarrow> string list \<Rightarrow> (js_error + router) \<times> call list" where
  "sendTo_loop env h r arguments [] = (Inr r, [])"
| "sendTo_loop env h r arguments (method # methods) =
     (case get_prop h (arg arguments 0) method of
        Inl e \<Rightarrow> (Inl e, [])
      | Inr v \<Rightarrow>
          if is_function v then
            (case on env h r method (Forward (arg arguments 0) method arguments) of
               (Inl e, tr) \<Rightarrow> (Inl e, tr)
             | (Inr r', tr) \<Rightarrow>
                 (case sendTo_loop env h r' arguments methods of (res, tr') \<Rightarrow> (res, tr @ tr')))
          else sendTo_loop env h r arguments methods)"

definition sendTo :: "fn_env \<Rightarrow> heap \<Rightarrow> router \<Rightarrow> val list \<Rightarrow> (js_error + router) \<times> call list" where
  "sendTo env h r arguments =
     (let anyConsole = arg arguments 0;
          options = arg arguments 1
      in case object_keys h anyConsole of
           Inl e \<Rightarrow> (Inl e, [])
         | Inr methods \<Rightarrow>
             (case sendTo_loop env h r arguments methods of
                (Inl e, tr) \<Rightarrow> (Inl e, tr)
              | (Inr r', tr) \<Rightarrow>
                  (case (if options = Undefined then Inr Undefined
                         else get_prop h options ''omitJsdomErrors'') of
                     Inl e \<Rightarrow> (Inl e, tr)
                   | Inr omit \<Rightarrow>
                       if \<not> truthy omit then
                         (case on env h r' ''jsdomError'' (JsdomError anyConsole) of
                            (res, tr') \<Rightarrow> (res, tr @ tr'))
                       else (Inr r', tr))))"

text \<open>
  For stating what \<open>sendTo\<close> registers: the forwarding listeners for the keys \<open>methods\<close>
  that hold a function, in key order, and whether the options ask to omit the
  \<^verbatim>\<open>jsdomError\<close> listener.
\<close>

definition forwards :: "heap \<Rightarrow> val list \<Rightarrow> string list \<Rightarrow> router" where
  "forwards h arguments methods =
     map (\<lambda>method. (method, Forward (arg arguments 0) method arguments))
       (filter (\<lambda>method. case get_prop h (arg arguments 0) method of Inl e \<Rightarrow> False | Inr v \<Rightarrow> is_function v)
          methods)"

definition omitJsdomErrors :: "heap \<Rightarrow> val list \<Rightarrow> bool" where
  "omitJsdomErrors h arguments =
     (arg arguments 1 \<noteq> Undefined \<and>
      (case get_prop h (arg arguments 1) ''omitJsdomErrors'' of Inl e \<Rightarrow> False | Inr v \<Rightarrow> truthy v))"

text \<open>
  A heap for examples: object 0 is a sink with the methods \<^verbatim>\<open>log\<close> and \<^verbatim>\<open>error\<close> and a
  data property, object 1 a failure with \<^verbatim>\<open>stack\<close> and \<^verbatim>\<open>detail\<close>, object 2 the options
  \<^verbatim>\<open>{ omitJsdomErrors: true }\<close>.
\<close>

definition console_heap :: heap where
  "console_heap =
     [0 \<mapsto> \<lparr>own = [(''log'', Fn 1), (''level'', Num 3), (''error'', Fn 2)], inherited = []\<rparr>,
      1 \<mapsto> \<lparr>own = [(''detail'', Str ''at line 3'')], inherited = [(''stack'', Str ''Error: boom'')]\<rparr>,
      2 \<mapsto> \<lparr>own = [(''omitJsdomErrors'', Bool True)], inherited = []\<rparr>]"

section \<open>The window: timers, documents and frames\<close>

subsection \<open>State\<close>

text \<open>
  The host's \<^verbatim>\<open>setTimeout\<close>/\<^verbatim>\<open>setInterval\<close> and \<^verbatim>\<open>clearTimeout\<close>/\<^verbatim>\<open>clearInterval\<close> are
  the values of \<open>start_fn\<close> and \<open>stop_fn\<close>. What the window does to its collaborators
  (the host scheduler, the document, the event system) is recorded as a list of
  \<open>effect\<close>s. \<open>Closed w\<close> marks the return of \<^verbatim>\<open>close()\<close> on window \<open>w\<close>.
\<close>

datatype start_fn = SetTimeout | SetInterval

datatype stop_fn = ClearTimeout | ClearInterval

datatype effect =
    Start start_fn val val val
  | Stop stop_fn val
  | BodyCleared nat
  | DocumentClose nat
  | Closed nat
  | CreateEvent nat string
  | InitEvent string
  | DispatchEvent nat string
  | AddEventListener nat string

text \<open>
  The document is a collaborator; the window reads and writes these members of it:
  \<^verbatim>\<open>body.innerHTML\<close> (\<open>None\<close> when there is no body), whether \<^verbatim>\<open>close\<close> is present,
  \<^verbatim>\<open>_listeners\<close> (the names listened for), \<^verbatim>\<open>readyState\<close> and \<^verbatim>\<open>URL\<close>.
\<close>

record document =
  body :: "string option"
  has_close :: bool
  d_listeners :: "string list"
  readyState :: string
  URL :: string

text \<open>
  The private fields of a window: \<^verbatim>\<open>__timers\<close>, \<^verbatim>\<open>_document\<close> (\<open>None\<close> once deleted),
  \<^verbatim>\<open>_length\<close>, the indexed frame slots \<^verbatim>\<open>window[i]\<close> and the listener table \<^verbatim>\<open>_events\<close> of
  its event target. Windows live in a store of their own; in a frame slot, \<open>Ref c\<close> is
  window \<open>c\<close> of the store. A slot holds a window or nothing: any other value stands for
  \<^verbatim>\<open>undefined\<close>.
\<close>

record window =
  w_timers :: "(val \<times> stop_fn) list"
  w_document :: "document option"
  w_length :: nat
  w_frames :: "val list"
  w_events :: "string list"

type_synonym store = "nat \<Rightarrow> window option"

record host =
  next_timer :: nat

subsection \<open>Timers\<close>

text \<open>
  The host's start function hands out a fresh handle; Node's throws a TypeError when the
  callback is not a function.
\<close>

definition host_start :: "host \<Rightarrow> start_fn \<Rightarrow> val \<Rightarrow> val \<Rightarrow> js_error + (val \<times> host \<times> effect list)" where
  "host_start hst startFn callback ms =
     (if is_function callback
      then Inr (Timer (next_timer hst), hst\<lparr>next_timer := Suc (next_timer hst)\<rparr>,
                [Start startFn callback ms (Timer (next_timer hst))])
      else Inl TypeError)"

definition startTimer ::
  "host \<Rightarrow> window \<Rightarrow> start_fn \<Rightarrow> stop_fn \<Rightarrow> val \<Rightarrow> val \<Rightarrow> js_error + (val \<times> host \<times> window \<times> effect list)" where
  "startTimer hst win startFn stopFn callback ms =
     (case host_start hst startFn callback ms of
        Inl e \<Rightarrow> Inl e
      | Inr (res, hst', effs) \<Rightarrow>
          Inr (res, hst', win\<lparr>w_timers := w_timers win @ [(res, stopFn)]\<rparr>, effs))"

text \<open>
  \<^verbatim>\<open>stopTimer\<close>: the loop runs over the indices in ascending order and stops at the first
  entry whose handle is the given one; \<open>stopTimer_scan\<close> returns what is in front of that
  entry, the entry, and what follows.
\<close>

fun stopTimer_scan ::
  "val \<Rightarrow> (val \<times> stop_fn) list \<Rightarrow> ((val \<times> stop_fn) list \<times> (val \<times> stop_fn) \<times> (val \<times> stop_fn) list) option" where
  "stopTimer_scan ident [] = None"
| "stopTimer_scan ident (t # ts) =
     (if fst t = ident then Some ([], t, ts)
      else (case stopTimer_scan ident ts of
              None \<Rightarrow> None
            | Some (before, found, rest) \<Rightarrow> Some (t # before, found, rest)))"

definition stopTimer :: "window \<Rightarrow> val \<Rightarrow> window \<times> effect list" where
  "stopTimer win ident =
     (if ident = Undefined then (win, [])
      else (case stopTimer_scan ident (w_timers win) of
              None \<Rightarrow> (win, [])
            | Some (before, found, rest) \<Rightarrow>
                (win\<lparr>w_timers := before @ rest\<rparr>, [Stop (snd found) ident])))"

definition stopAllTimers :: "window \<Rightarrow> window \<times> effect list" where
  "stopAllTimers win =
     (win\<lparr>w_timers := []\<rparr>, map (\<lambda>t. Stop (snd t) (fst t)) (w_timers win))"

text \<open>
  The timer methods of the window object: \<^verbatim>\<open>setTimeout\<close>, \<^verbatim>\<open>setInterval\<close>, and
  \<^verbatim>\<open>clearTimeout\<close>/\<^verbatim>\<open>clearInterval\<close>, which are the same bound \<^verbatim>\<open>stopTimer\<close>. A call that
  throws leaves the window as it was.
\<close>

datatype timer_call =
    CallSetTimeout val val
  | CallSetInterval val val
  | CallClearTimeout val
  | CallClearInterval val

fun timer_step :: "host \<times> window \<times> effect list \<Rightarrow> timer_call \<Rightarrow> host \<times> window \<times> effect list" where
  "timer_step (hst, win, effs) (CallSetTimeout fn ms) =
     (case startTimer hst win SetTimeout ClearTimeout fn ms of
        Inl e \<Rightarrow> (hst, win, effs)
      | Inr (res, hst', win', effs') \<Rightarrow> (hst', win', effs @ effs'))"
| "timer_step (hst, win, effs) (CallSetInterval fn ms) =
     (case startTimer hst win SetInterval ClearInterval fn ms of
        Inl e \<Rightarrow> (hst, win, effs)
      | Inr (res, hst', win', effs') \<Rightarrow> (hst', win', effs @ effs'))"
| "timer_step (hst, win, effs) (CallClearTimeout ident) =
     (case stopTimer win ident of (win', effs') \<Rightarrow> (hst, win', effs @ effs'))"
| "timer_step (hst, win, effs) (CallClearInterval ident) =
     (case stopTimer win ident of (win', effs') \<Rightarrow> (hst, win', effs @ effs'))"

definition timer_calls :: "host \<times> window \<times> effect list \<Rightarrow> timer_call list \<Rightarrow> host \<times> window \<times> effect list" where
  "timer_calls st cs = foldl timer_step st cs"

subsection \<open>Closing a window\<close>

text \<open>
  The part of \<^verbatim>\<open>close\<close> after the recursion, on the window \<open>w\<close> itself: the listener table
  is replaced, the body emptied, the document's listeners dropped and the document
  closed, the document reference deleted, and all timers stopped.
\<close>

definition close_document :: "nat \<Rightarrow> document \<Rightarrow> effect list" where
  "close_document w d =
     (if body d \<noteq> None then [BodyCleared w] else []) @
     (if has_close d then [DocumentClose w] else [])"

definition close_self :: "nat \<Rightarrow> window \<Rightarrow> window \<times> effect list" where
  "close_self w win =
     (let win1 = win\<lparr>w_events := []\<rparr>;
          effs = (case w_document win1 of None \<Rightarrow> [] | Some d \<Rightarrow> close_document w d);
          win2 = win1\<lparr>w_document := None\<rparr>
      in case stopAllTimers win2 of (win3, effs') \<Rightarrow> (win3, effs @ effs'))"

text \<open>
  \<^verbatim>\<open>close\<close> and its inner \<^verbatim>\<open>windowCleaner\<close> call each other, and nothing in the code bounds
  the recursion: on a frame graph with a cycle it does not return. The functions take
  fuel, one unit per call and per loop test; \<open>None\<close> means the fuel ran out. Reading
  \<^verbatim>\<open>length\<close> of a slot that holds no window is a TypeError.
  \<open>windowCleaner_loop\<close> is the \<^verbatim>\<open>for\<close> loop from index \<open>i\<close>, which reads \<^verbatim>\<open>length\<close> and the
  slot afresh in every round.
\<close>

fun close :: "nat \<Rightarrow> store \<Rightarrow> nat \<Rightarrow> (js_error + store \<times> effect list) option"
  and windowCleaner :: "nat \<Rightarrow> store \<Rightarrow> nat \<Rightarrow> val \<Rightarrow> (js_error + store \<times> effect list) option"
  and windowCleaner_loop :: "nat \<Rightarrow> store \<Rightarrow> nat \<Rightarrow> nat \<Rightarrow> nat \<Rightarrow> (js_error + store \<times> effect list) option"
where
  "close 0 s this = None"
| "close (Suc n) s this =
     (case windowCleaner n s this (Ref this) of
        None \<Rightarrow> None
      | Some (Inl e) \<Rightarrow> Some (Inl e)
      | Some (Inr (s1, effs1)) \<Rightarrow>
          (case s1 this of
             None \<Rightarrow> Some (Inl TypeError)
           | Some win \<Rightarrow>
               (case close_self this win of
                  (win', effs2) \<Rightarrow>
                    Some (Inr (s1(this \<mapsto> win'), effs1 @ effs2 @ [Closed this])))))"
| "windowCleaner 0 s currentWindow windowToClean = None"
| "windowCleaner (Suc n) s currentWindow (Ref c) =
     (case windowCleaner_loop n s currentWindow c 0 of
        None \<Rightarrow> None
      | Some (Inl e) \<Rightarrow> Some (Inl e)
      | Some (Inr (s1, effs1)) \<Rightarrow>
          if c \<noteq> currentWindow then
            (case close n s1 c of
               None \<Rightarrow> None
             | Some (Inl e) \<Rightarrow> Some (Inl e)
             | Some (Inr (s2, effs2)) \<Rightarrow> Some (Inr (s2, effs1 @ effs2)))
          else Some (Inr (s1, effs1)))"
| "windowCleaner (Suc n) s currentWindow v = Some (Inl TypeError)"
| "windowCleaner_loop 0 s currentWindow c i = None"
| "windowCleaner_loop (Suc n) s currentWindow c i =
     (case s c of
        None \<Rightarrow> Some (Inl TypeError)
      | Some win \<Rightarrow>
          if i < w_length win then
            (case windowCleaner n s currentWindow (arg (w_frames win) i) of
               None \<Rightarrow> None
             | Some (Inl e) \<Rightarrow> Some (Inl e)
             | Some (Inr (s1, effs1)) \<Rightarrow>
                 (case windowCleaner_loop n s1 currentWindow c (Suc i) of
                    None \<Rightarrow> None
                  | Some (Inl e) \<Rightarrow> Some (Inl e)
                  | Some (Inr (s2, effs2)) \<Rightarrow> Some (Inr (s2, effs1 @ effs2))))
          else Some (Inr (s, [])))"

text \<open>
  The frames below \<open>w\<close> form a tree of windows at most \<open>h\<close> deep: \<open>w\<close> is a window of the
  store and each of its \<^verbatim>\<open>length\<close> slots holds a window with the same property for
  \<open>h - 1\<close>.
\<close>

fun frame_tree :: "store \<Rightarrow> nat \<Rightarrow> nat \<Rightarrow> bool" where
  "frame_tree s 0 w = False"
| "frame_tree s (Suc h) w =
     (case s w of
        None \<Rightarrow> False
      | Some win \<Rightarrow>
          list_all (\<lambda>i. case arg (w_frames win) i of Ref c \<Rightarrow> frame_tree s h c | _ \<Rightarrow> False)
            [0..<w_length win])"

subsection \<open>The deferred load event\<close>

text \<open>
  The task the constructor hands to \<^verbatim>\<open>process.nextTick\<close>, run on window \<open>w\<close> of the store
  at some later time.
\<close>

definition deferred_load :: "store \<Rightarrow> nat \<Rightarrow> js_error + store \<times> effect list" where
  "deferred_load s w =
     (case s w of
        None \<Rightarrow> Inl TypeError
      | Some win \<Rightarrow>
          (case w_document win of
             None \<Rightarrow> Inr (s, [])
           | Some d \<Rightarrow>
               if readyState d = ''complete''
               then Inr (s, [CreateEvent w ''HTMLEvents'', InitEvent ''load'', DispatchEvent w ''load''])
               else Inr (s(w \<mapsto> win\<lparr>w_document := Some (d\<lparr>d_listeners := d_listeners d @ [''load'']\<rparr>)\<rparr>),
                         [CreateEvent w ''HTMLEvents'', InitEvent ''load'', AddEventListener w ''load''])))"

text \<open>
  For stating the order of the registry: the entries that the \<open>Start\<close> effects of a run
  registered, in the order of the calls. \<^verbatim>\<open>setTimeout\<close> registers \<^verbatim>\<open>clearTimeout\<close> with the
  handle, \<^verbatim>\<open>setInterval\<close> registers \<^verbatim>\<open>clearInterval\<close>.
\<close>

fun registration :: "effect \<Rightarrow> (val \<times> stop_fn) list" where
  "registration (Start SetTimeout callback ms res) = [(res, ClearTimeout)]"
| "registration (Start SetInterval callback ms res) = [(res, ClearInterval)]"
| "registration e = []"

definition registrations :: "effect list \<Rightarrow> (val \<times> stop_fn) list" where
  "registrations effs = concat (map registration effs)"

text \<open>
  The registry after a sequence of calls, as the specification has it: the timers
  scheduled and not cancelled by a later call, in the order in which they were scheduled,
  each with the cancel function that goes with its start function. \<open>n\<close> is the number of
  the next handle of the host; a start call whose callback is no function raises and
  schedules nothing. \<open>clear_idents\<close> are the handles that the clear calls of a sequence
  are given.
\<close>

fun clear_idents :: "timer_call list \<Rightarrow> val list" where
  "clear_idents [] = []"
| "clear_idents (CallClearTimeout ident # cs) = ident # clear_idents cs"
| "clear_idents (CallClearInterval ident # cs) = ident # clear_idents cs"
| "clear_idents (c # cs) = clear_idents cs"

fun pending_timers :: "nat \<Rightarrow> timer_call list \<Rightarrow> (val \<times> stop_fn) list" where
  "pending_timers n [] = []"
| "pending_timers n (CallSetTimeout fn ms # cs) =
     (if is_function fn
      then (if Timer n \<in> set (clear_idents cs) then [] else [(Timer n, ClearTimeout)]) @ pending_timers (Suc n) cs
      else pending_timers n cs)"
| "pending_timers n (CallSetInterval fn ms # cs) =
     (if is_function fn
      then (if Timer n \<in> set (clear_idents cs) then [] else [(Timer n, ClearInterval)]) @ pending_timers (Suc n) cs
      else pending_timers n cs)"
| "pending_timers n (CallClearTimeout ident # cs) = pending_timers n cs"
| "pending_timers n (CallClearInterval ident # cs) = pending_timers n cs"

text \<open>The entries on which a trace called a cancel function, with that function.\<close>

fun stop :: "effect \<Rightarrow> (val \<times> stop_fn) list" where
  "stop (Stop stopFn ident) = [(ident, stopFn)]"
| "stop e = []"

definition stops :: "effect list \<Rightarrow> (val \<times> stop_fn) list" where
  "stops effs = concat (map stop effs)"

text \<open>
  The invariant of the registry: the handles are distinct and were handed out by the
  host.
\<close>

definition registry_ok :: "host \<Rightarrow> (val \<times> stop_fn) list \<Rightarrow> bool" where
  "registry_ok hst reg =
     (distinct (map fst reg) \<and> list_all (\<lambda>t. case fst t of Timer k \<Rightarrow> k < next_timer hst | _ \<Rightarrow> False) reg)"

text \<open>
  Calls for examples: three timers are started (a fourth call has no callback and
  raises), the second is cleared, then a handle that was never handed out and
  \<^verbatim>\<open>undefined\<close> are cleared.
\<close>

definition example_calls :: "timer_call list" where
  "example_calls =
     [CallSetTimeout (Fn 1) (Num 10), CallSetInterval (Fn 2) (Num 5), CallSetTimeout (Num 3) (Num 5),
      CallSetTimeout (Fn 3) (Num 5), CallClearInterval (Timer 1), CallClearTimeout (Timer 9),
      CallClearTimeout Undefined]"

text \<open>
  For stating what closing leaves behind: window \<open>x\<close> of the store has no document and an
  empty timer registry. \<open>frames_of\<close> is the frame structure of a store, which closing
  does not change.
\<close>

definition closed_in :: "store \<Rightarrow> nat \<Rightarrow> bool" where
  "closed_in s x = (case s x of None \<Rightarrow> False | Some win \<Rightarrow> w_document win = None \<and> w_timers win = [])"

definition frames_of :: "store \<Rightarrow> nat \<Rightarrow> (nat \<times> val list) option" where
  "frames_of s w = map_option (\<lambda>win. (w_length win, w_frames win)) (s w)"

text \<open>
  For stating the order of closing: in the trace \<open>tr\<close>, every return of \<^verbatim>\<open>close()\<close> on a
  window comes after a return of \<^verbatim>\<open>close()\<close> on each of its frames (\<open>seen\<close> are the windows
  closed before \<open>tr\<close> starts). \<open>closed_windows\<close> lists the windows a trace closes.
\<close>

fun frames_closed_first :: "store \<Rightarrow> nat list \<Rightarrow> effect list \<Rightarrow> bool" where
  "frames_closed_first s seen [] = True"
| "frames_closed_first s seen (Closed x # tr) =
     ((case s x of
         None \<Rightarrow> False
       | Some win \<Rightarrow>
           list_all (\<lambda>i. case arg (w_frames win) i of Ref d \<Rightarrow> d \<in> set seen | _ \<Rightarrow> False)
             [0..<w_length win]) \<and>
      frames_closed_first s (x # seen) tr)"
| "frames_closed_first s seen (e # tr) = frames_closed_first s seen tr"

fun closed_windows :: "effect list \<Rightarrow> nat list" where
  "closed_windows [] = []"
| "closed_windows (Closed x # tr) = x # closed_windows tr"
| "closed_windows (e # tr) = closed_windows tr"

text \<open>
  A store for examples: window 0 has the frames 1 and 2, window 1 has the frame 3; windows
  0 and 2 have a timer each.
\<close>

definition example_window :: "val list \<Rightarrow> (val \<times> stop_fn) list \<Rightarrow> window" where
  "example_window frames ts =
     \<lparr>w_timers = ts,
      w_document = Some \<lparr>body = Some ''<p>x</p>'', has_close = True, d_listeners = [],
                         readyState = ''loading'', URL = ''http://example.org/''\<rparr>,
      w_length = length frames, w_frames = frames, w_events = [''load'']\<rparr>"

definition example_store :: store where
  "example_store =
     [0 \<mapsto> example_window [Ref 1, Ref 2] [(Timer 7, ClearTimeout)],
      1 \<mapsto> example_window [Ref 3] [],
      2 \<mapsto> example_window [] [(Timer 8, ClearInterval)],
      3 \<mapsto> example_window [] []]"

definition single_store :: store where
  "single_store = [0 \<mapsto> example_window [] [(Timer 7, ClearTimeout)]]"

section \<open>The cookie-aware request wrapper\<close>

subsection \<open>The transport and the cookie jar\<close>

text \<open>
  \<^verbatim>\<open>window.XMLHttpRequest\<close> wraps a request object of the \<^verbatim>\<open>xmlhttprequest\<close> package. The
  package is a collaborator; of its state the model keeps what the wrapper's calls read
  and write: \<^verbatim>\<open>readyState\<close>, the send flag, the error flag, the request headers, the
  header-check switch, the settings of \<^verbatim>\<open>open\<close>, the response headers, and how many
  \<^verbatim>\<open>setReceivedCookies\<close> closures listen for \<^verbatim>\<open>readystatechange\<close>. \<open>lastUrl\<close> is the
  variable of that name in the wrapper's closure. Every call of a method of the package
  is recorded in \<open>x_calls\<close>, and \<open>Transmit\<close> records the request as \<^verbatim>\<open>send\<close> hands it to
  the network.
\<close>

datatype header_val = HNull | HStr string | HArr "string list"

datatype xhr_call =
    XOpen string string val val val
  | XSetDisableHeaderCheck bool
  | XSetRequestHeader string string
  | XAddEventListener string
  | XRemoveEventListener string
  | XGetResponseHeader string
  | XSend val
  | Transmit string string "(string \<times> string) list" val

record xhr =
  x_readyState :: nat
  x_sendFlag :: bool
  x_errorFlag :: bool
  x_headers :: "(string \<times> string) list"
  x_disableHeaderCheck :: bool
  x_settings :: "(string \<times> string) option"
  x_response :: "(string \<times> header_val) list"
  x_cookie_listeners :: nat
  x_calls :: "xhr_call list"
  lastUrl :: string

definition UNSENT :: nat where "UNSENT = 0"
definition OPENED :: nat where "OPENED = 1"
definition HEADERS_RECEIVED :: nat where "HEADERS_RECEIVED = 2"

text \<open>\<^verbatim>\<open>new XMLHttpRequest()\<close> with the wrapper's \<^verbatim>\<open>let lastUrl = ""\<close>.\<close>

definition new_xhr :: xhr where
  "new_xhr =
     \<lparr>x_readyState = UNSENT, x_sendFlag = False, x_errorFlag = False, x_headers = [],
      x_disableHeaderCheck = False, x_settings = None, x_response = [],
      x_cookie_listeners = 0, x_calls = [], lastUrl = []\<rparr>"

definition forbiddenRequestHeaders :: "string list" where
  "forbiddenRequestHeaders =
     [''accept-charset'', ''accept-encoding'', ''access-control-request-headers'',
      ''access-control-request-method'', ''connection'', ''content-length'',
      ''content-transfer-encoding'', ''cookie'', ''cookie2'', ''date'', ''expect'', ''host'',
      ''keep-alive'', ''origin'', ''referer'', ''te'', ''trailer'', ''transfer-encoding'',
      ''upgrade'', ''via'']"

definition forbiddenRequestMethods :: "string list" where
  "forbiddenRequestMethods = [''TRACE'', ''TRACK'', ''CONNECT'']"

definition toLowerCase :: "string \<Rightarrow> string" where
  "toLowerCase s =
     map (\<lambda>c. if 65 \<le> (of_char c :: nat) \<and> (of_char c :: nat) \<le> 90
              then char_of ((of_char c :: nat) + 32) else c) s"

definition isAllowedHttpHeader :: "xhr \<Rightarrow> string \<Rightarrow> bool" where
  "isAllowedHttpHeader x header =
     (x_disableHeaderCheck x \<or> (header \<noteq> [] \<and> toLowerCase header \<notin> set forbiddenRequestHeaders))"

definition isAllowedHttpMethod :: "string \<Rightarrow> bool" where
  "isAllowedHttpMethod method = (method \<noteq> [] \<and> method \<notin> set forbiddenRequestMethods)"

text \<open>
  The package's \<^verbatim>\<open>open\<close> (the wrapper's \<^verbatim>\<open>_open\<close>): the request is reset, a forbidden
  method throws, otherwise the settings are stored and the state is \<^verbatim>\<open>OPENED\<close>.
\<close>

definition underlying_open :: "xhr \<Rightarrow> string \<Rightarrow> string \<Rightarrow> val \<Rightarrow> val \<Rightarrow> val \<Rightarrow> (js_error + unit) \<times> xhr" where
  "underlying_open x method url async user password =
     (let x1 = x\<lparr>x_calls := x_calls x @ [XOpen method url async user password],
                x_headers := [], x_response := [], x_sendFlag := False,
                x_errorFlag := False, x_readyState := UNSENT\<rparr>
      in if \<not> isAllowedHttpMethod method then (Inl (Failure ''SecurityError''), x1)
         else (Inr (), x1\<lparr>x_settings := Some (method, url), x_readyState := OPENED\<rparr>))"

definition setDisableHeaderCheck :: "xhr \<Rightarrow> bool \<Rightarrow> xhr" where
  "setDisableHeaderCheck x state =
     x\<lparr>x_calls := x_calls x @ [XSetDisableHeaderCheck state], x_disableHeaderCheck := state\<rparr>"

text \<open>
  The package's \<^verbatim>\<open>setRequestHeader\<close>: it throws unless the state is \<^verbatim>\<open>OPENED\<close>, refuses a
  forbidden header with a warning when the check is on, throws when the send flag is set,
  and otherwise stores the value, joined to a value the header already has.
\<close>

fun put_header :: "string \<Rightarrow> string \<Rightarrow> (string \<times> string) list \<Rightarrow> (string \<times> string) list" where
  "put_header header v [] = [(header, v)]"
| "put_header header v ((k, old) # hs) =
     (if k = header then (k, if old = [] then v else old @ '', '' @ v) # hs
      else (k, old) # put_header header v hs)"

definition setRequestHeader :: "xhr \<Rightarrow> string \<Rightarrow> string \<Rightarrow> (js_error + unit) \<times> xhr" where
  "setRequestHeader x header v =
     (let x1 = x\<lparr>x_calls := x_calls x @ [XSetRequestHeader header v]\<rparr>
      in if x_readyState x1 \<noteq> OPENED then (Inl (Failure ''INVALID_STATE_ERR''), x1)
         else if \<not> isAllowedHttpHeader x1 header then (Inr (), x1)
         else if x_sendFlag x1 then (Inl (Failure ''INVALID_STATE_ERR''), x1)
         else (Inr (), x1\<lparr>x_headers := put_header header v (x_headers x1)\<rparr>))"

text \<open>
  The package's \<^verbatim>\<open>send\<close> (the wrapper's \<^verbatim>\<open>_send\<close>): it throws unless the request is open and
  not yet sent; otherwise the request goes out with the headers it has.
\<close>

definition underlying_send :: "xhr \<Rightarrow> val \<Rightarrow> (js_error + unit) \<times> xhr" where
  "underlying_send x data =
     (let x1 = x\<lparr>x_calls := x_calls x @ [XSend data]\<rparr>
      in if x_readyState x1 \<noteq> OPENED then (Inl (Failure ''INVALID_STATE_ERR''), x1)
         else if x_sendFlag x1 then (Inl (Failure ''INVALID_STATE_ERR''), x1)
         else (case x_settings x1 of
                 None \<Rightarrow> (Inl (Failure ''INVALID_STATE_ERR''), x1)
               | Some (method, url) \<Rightarrow>
                   (Inr (), x1\<lparr>x_sendFlag := True,
                                x_calls := x_calls x1 @ [Transmit method url (x_headers x1) data]\<rparr>)))"

text \<open>The package's \<^verbatim>\<open>getResponseHeader\<close>.\<close>

definition getResponseHeader :: "xhr \<Rightarrow> string \<Rightarrow> header_val \<times> xhr" where
  "getResponseHeader x header =
     (let x1 = x\<lparr>x_calls := x_calls x @ [XGetResponseHeader header]\<rparr>
      in if x_readyState x1 > OPENED \<and> \<not> x_errorFlag x1
         then (case map_of (x_response x1) (toLowerCase header) of
                 None \<Rightarrow> (HNull, x1)
               | Some v \<Rightarrow> (if v = HStr [] then (HNull, x1) else (v, x1)))
         else (HNull, x1))"

text \<open>
  The cookie jar is a collaborator too. Its state is the list of what \<^verbatim>\<open>setCookieSync\<close> was
  given, oldest first: the cookie string and the URL. What \<^verbatim>\<open>getCookieStringSync\<close> answers
  is up to the storage engine: the functions below take it as the parameter
  \<open>getCookieStringSync\<close>, a function of the jar's state and the URL that gives a string or
  nothing (\<^verbatim>\<open>undefined\<close>).
\<close>

type_synonym jar = "(string \<times> string) list"

definition setCookieSync :: "jar \<Rightarrow> string \<Rightarrow> string \<Rightarrow> jar" where
  "setCookieSync cookieJar cookieStr url = cookieJar @ [(cookieStr, url)]"

subsection \<open>The wrapper\<close>

text \<open>
  \<^verbatim>\<open>fixUrlForBuggyXhr\<close>: \<^verbatim>\<open>url.replace(/^file:\/\/\/([a-zA-Z]:)/, "file://$1")\<close>.
\<close>

definition is_letter :: "char \<Rightarrow> bool" where
  "is_letter c =
     ((97 \<le> (of_char c :: nat) \<and> (of_char c :: nat) \<le> 122) \<or>
      (65 \<le> (of_char c :: nat) \<and> (of_char c :: nat) \<le> 90))"

definition fixUrlForBuggyXhr :: "string \<Rightarrow> string" where
  "fixUrlForBuggyXhr url =
     (if take 8 url = ''file:///'' then
        (case drop 8 url of
           c # d # rest \<Rightarrow>
             if is_letter c \<and> d = CHR '':'' then ''file://'' @ c # d # rest else url
         | _ \<Rightarrow> url)
      else url)"

text \<open>
  \<^verbatim>\<open>xhr.open\<close>. \<^verbatim>\<open>resolveHref\<close> is a function of the repository's \<^verbatim>\<open>utils\<close> module; it is a
  parameter here. Reading \<^verbatim>\<open>window.document.URL\<close> of a window without a document is a
  TypeError.
\<close>

definition xhr_open ::
  "(string \<Rightarrow> string \<Rightarrow> string) \<Rightarrow> window \<Rightarrow> xhr \<Rightarrow> string \<Rightarrow> string \<Rightarrow> val \<Rightarrow> val \<Rightarrow> val \<Rightarrow> (js_error + unit) \<times> xhr" where
  "xhr_open resolveHref win x method url async user password =
     (case w_document win of
        None \<Rightarrow> (Inl TypeError, x)
      | Some d \<Rightarrow>
          (let x1 = x\<lparr>lastUrl := fixUrlForBuggyXhr (resolveHref (URL d) url)\<rparr>
           in underlying_open x1 method (lastUrl x1) async user password))"

text \<open>
  \<^verbatim>\<open>xhr.send\<close>, with the jar \<open>cookieJar\<close> that \<^verbatim>\<open>window.document._cookieJar\<close> refers to. The
  cookie string counts when it is truthy: a string that is not empty. \<open>inject_cookie\<close> is
  the \<^verbatim>\<open>if (cookieStr)\<close> statement.
\<close>

definition inject_cookie :: "xhr \<Rightarrow> string option \<Rightarrow> (js_error + unit) \<times> xhr" where
  "inject_cookie x cookieStr =
     (case cookieStr of
        None \<Rightarrow> (Inr (), x)
      | Some s \<Rightarrow>
          if s \<noteq> [] then
            (case setRequestHeader (setDisableHeaderCheck x True) ''cookie'' s of
               (Inl e, x1) \<Rightarrow> (Inl e, x1)
             | (Inr u, x1) \<Rightarrow> (Inr (), setDisableHeaderCheck x1 False))
          else (Inr (), x))"

definition addEventListener_setReceivedCookies :: "xhr \<Rightarrow> xhr" where
  "addEventListener_setReceivedCookies x =
     x\<lparr>x_calls := x_calls x @ [XAddEventListener ''readystatechange''],
       x_cookie_listeners := Suc (x_cookie_listeners x)\<rparr>"

definition xhr_send ::
  "(jar \<Rightarrow> string \<Rightarrow> string option) \<Rightarrow> window \<Rightarrow> jar \<Rightarrow> xhr \<Rightarrow> val \<Rightarrow> (js_error + unit) \<times> xhr" where
  "xhr_send getCookieStringSync win cookieJar x data =
     (case w_document win of
        None \<Rightarrow> (Inl TypeError, x)
      | Some d \<Rightarrow>
          (case inject_cookie x (getCookieStringSync cookieJar (lastUrl x)) of
             (Inl e, x1) \<Rightarrow> (Inl e, x1)
           | (Inr u, x1) \<Rightarrow> underlying_send (addEventListener_setReceivedCookies x1) data))"

text \<open>
  \<^verbatim>\<open>setReceivedCookies\<close>, the listener that \<^verbatim>\<open>send\<close> registers: in state \<^verbatim>\<open>HEADERS_RECEIVED\<close>
  it stores every received cookie in the jar under \<open>lastUrl\<close> and removes itself.
\<close>

definition setReceivedCookies :: "jar \<Rightarrow> xhr \<Rightarrow> jar \<times> xhr" where
  "setReceivedCookies cookieJar x =
     (if x_readyState x = HEADERS_RECEIVED then
        (case getResponseHeader x ''set-cookie'' of
           (receivedCookies, x1) \<Rightarrow>
             (foldl (\<lambda>j receivedCookieStr. setCookieSync j receivedCookieStr (lastUrl x1)) cookieJar
                (case receivedCookies of HNull \<Rightarrow> [] | HStr s \<Rightarrow> [s] | HArr ss \<Rightarrow> ss),
              x1\<lparr>x_calls := x_calls x1 @ [XRemoveEventListener ''readystatechange''],
                 x_cookie_listeners := x_cookie_listeners x1 - 1\<rparr>))
      else (cookieJar, x))"

text \<open>
  The transport's part, as far as the wrapper's listener sees it: the response headers
  arrive, the state becomes \<^verbatim>\<open>HEADERS_RECEIVED\<close>, and \<^verbatim>\<open>readystatechange\<close> is dispatched to
  the listeners registered at that moment.
\<close>

definition headers_received :: "(string \<times> header_val) list \<Rightarrow> jar \<Rightarrow> xhr \<Rightarrow> jar \<times> xhr" where
  "headers_received response cookieJar x =
     ((\<lambda>p. setReceivedCookies (fst p) (snd p)) ^^ x_cookie_listeners x)
       (cookieJar, x\<lparr>x_response := response, x_readyState := HEADERS_RECEIVED\<rparr>)"

text \<open>For stating what a call of the wrapper does: the calls it adds to the record.\<close>

definition new_calls :: "xhr \<Rightarrow> xhr \<Rightarrow> xhr_call list" where
  "new_calls x x' = drop (length (x_calls x)) (x_calls x')"

text \<open>
  The scenario of two requests of one window to the same URL: the first is opened and
  sent, its response headers arrive with a \<^verbatim>\<open>set-cookie\<close> header \<open>received\<close>, then a new request
  is opened and sent. The result is the jar after the first response, and the outcome and
  final state of the second request.
\<close>

definition second_request ::
  "(string \<Rightarrow> string \<Rightarrow> string) \<Rightarrow> (jar \<Rightarrow> string \<Rightarrow> string option) \<Rightarrow> window \<Rightarrow> jar \<Rightarrow>
   string \<Rightarrow> header_val \<Rightarrow> string \<Rightarrow> val \<Rightarrow> string \<Rightarrow> val \<Rightarrow> jar \<times> (js_error + unit) \<times> xhr" where
  "second_request resolveHref getCookieStringSync win cookieJar url received method1 data1 method2 data2 =
     (case xhr_open resolveHref win new_xhr method1 url (Bool True) Undefined Undefined of
        (res1, x1) \<Rightarrow>
          (case xhr_send getCookieStringSync win cookieJar x1 data1 of
             (res2, x2) \<Rightarrow>
               (case headers_received [(''set-cookie'', received)] cookieJar x2 of
                  (cookieJar', x3) \<Rightarrow>
                    (case xhr_open resolveHref win new_xhr method2 url (Bool True) Undefined Undefined of
                       (res4, y1) \<Rightarrow>
                         (case xhr_send getCookieStringSync win cookieJar' y1 data2 of
                            (res5, y2) \<Rightarrow> (cookieJar', res5, y2))))))"

text \<open>
  For examples: a jar that never has a cookie to send, a jar that answers with the cookie
  stored last for the URL, and a request opened with \<^verbatim>\<open>GET\<close> on an absolute URL.
\<close>

definition no_cookies :: "jar \<Rightarrow> string \<Rightarrow> string option" where
  "no_cookies cookieJar url = Some []"

definition last_cookie :: "jar \<Rightarrow> string \<Rightarrow> string option" where
  "last_cookie cookieJar url =
     (case filter (\<lambda>p. snd p = url) cookieJar of [] \<Rightarrow> Some [] | ps \<Rightarrow> Some (fst (last ps)))"

definition opened_xhr :: xhr where
  "opened_xhr =
     snd (xhr_open (\<lambda>base url. url) (example_window [] []) new_xhr ''GET'' ''http://example.org/a''
            (Bool True) Undefined Undefined)"

section \<open>The computed style\<close>

subsection \<open>Style sheets\<close>

text \<open>
  A style declaration block as \<^verbatim>\<open>getComputedStyle\<close> reads it: the property names at the
  indices \<open>0, 1, ...\<close> (what \<^verbatim>\<open>forEach\<close> visits) and a table from which \<^verbatim>\<open>getPropertyValue\<close>
  and \<^verbatim>\<open>getPropertyPriority\<close> answer, with the empty string for a name the table lacks.
\<close>

record css_style =
  names :: "string list"
  table :: "(string \<times> string \<times> string) list"

definition getPropertyValue :: "css_style \<Rightarrow> string \<Rightarrow> string" where
  "getPropertyValue s property = (case map_of (table s) property of None \<Rightarrow> [] | Some (v, p) \<Rightarrow> v)"

definition getPropertyPriority :: "css_style \<Rightarrow> string \<Rightarrow> string" where
  "getPropertyPriority s property = (case map_of (table s) property of None \<Rightarrow> [] | Some (v, p) \<Rightarrow> p)"

text \<open>
  A rule object of a parsed sheet, with the members the code looks at: \<^verbatim>\<open>selectorText\<close>,
  \<^verbatim>\<open>style\<close>, \<^verbatim>\<open>media\<close> (the list of media queries) and \<^verbatim>\<open>cssRules\<close>. A member a kind of rule
  does not have is \<open>None\<close>: a style rule has a selector and no media, a media rule has media
  and rules, an import rule has media and no rules. A sheet is its \<^verbatim>\<open>cssRules\<close>.
\<close>

datatype rule =
  Rule (selectorText: "string option") (style: css_style) (media: "string list option")
    (cssRules: "rule list option")

type_synonym sheet = "rule list"

text \<open>
  The element: its inline \<^verbatim>\<open>style\<close> and \<^verbatim>\<open>ownerDocument.styleSheets\<close>. What
  \<^verbatim>\<open>el.matches(selector)\<close> answers is the selector engine's business; \<open>matches\<close> gives it per
  selector text, \<open>None\<close> when the engine throws.
\<close>

record node =
  n_style :: css_style
  styleSheets :: "sheet list"
  matches :: "string \<Rightarrow> bool option"

subsection \<open>Splitting a selector list\<close>

text \<open>
  \<^verbatim>\<open>cssSelectorSplitRE = /((?:[^,"']|"[^"]*"|'[^']*')+)/\<close>. A match at the start of a string
  takes, as often as possible, a character other than comma and quotes, or a quoted
  string up to its closing quote. \<open>munch s\<close> is what is left of \<open>s\<close> after the match;
  nothing is taken when the match fails.
\<close>

fun quoted_end :: "char \<Rightarrow> string \<Rightarrow> string option" where
  "quoted_end q [] = None"
| "quoted_end q (c # cs) = (if c = q then Some cs else quoted_end q cs)"

lemma quoted_end_length: "quoted_end q cs = Some rest \<Longrightarrow> length rest < Suc (length cs)"
  by (induction cs) (auto split: if_splits)

function munch :: "string \<Rightarrow> string" where
  "munch [] = []"
| "munch (c # cs) =
     (if c = CHR '','' then c # cs
      else if c = CHR 0x22 \<or> c = CHR 0x27 then
        (case quoted_end c cs of None \<Rightarrow> c # cs | Some rest \<Rightarrow> munch rest)
      else munch cs)"
  by pat_completeness auto
termination
  by (relation "measure length") (auto dest: quoted_end_length)

text \<open>
  \<^verbatim>\<open>String.prototype.split\<close> with this expression: from left to right, where the expression
  matches, the text since the last match, then the match (the expression's group) are
  put out and the search goes on after the match; where it does not match, the search
  moves one character on. At the end the text since the last match is put out.
  \<open>pending\<close> is that text, reversed.
\<close>

function split_loop :: "string \<Rightarrow> string \<Rightarrow> string list" where
  "split_loop pending [] = [rev pending]"
| "split_loop pending (c # cs) =
     (if length (munch (c # cs)) < length (c # cs)
      then rev pending # take (length (c # cs) - length (munch (c # cs))) (c # cs) #
             split_loop [] (munch (c # cs))
      else split_loop (c # pending) cs)"
  by pat_completeness auto
termination
  by (relation "measure (\<lambda>(pending, s). length s)") auto

definition split_cssSelectorSplitRE :: "string \<Rightarrow> string list" where
  "split_cssSelectorSplitRE text = split_loop [] text"

subsection \<open>getComputedStyle\<close>

text \<open>
  The result object \<open>cs\<close> is a \<^verbatim>\<open>CSSStyleDeclaration\<close> of the \<^verbatim>\<open>cssstyle\<close> package. What its
  \<^verbatim>\<open>setProperty\<close> does with a name, a value and a priority is the package's business: the
  functions take it as the parameter \<open>setProperty\<close>, and the new, empty declaration as the
  parameter \<open>cs\<close> of \<open>getComputedStyle\<close>.
\<close>

definition matchesDontThrow :: "node \<Rightarrow> string \<Rightarrow> bool" where
  "matchesDontThrow el selector = (case matches el selector of None \<Rightarrow> False | Some b \<Rightarrow> b)"

text \<open>\<^verbatim>\<open>forEach.call(style, property => cs.setProperty(property, value, priority))\<close>.\<close>

definition setProperties ::
  "('cs \<Rightarrow> string \<Rightarrow> string \<Rightarrow> string \<Rightarrow> 'cs) \<Rightarrow> css_style \<Rightarrow> 'cs \<Rightarrow> 'cs" where
  "setProperties setProperty s cs =
     foldl (\<lambda>cs property. setProperty cs property (getPropertyValue s property) (getPropertyPriority s property))
       cs (names s)"

fun selectors_loop ::
  "('cs \<Rightarrow> string \<Rightarrow> string \<Rightarrow> string \<Rightarrow> 'cs) \<Rightarrow> node \<Rightarrow> rule \<Rightarrow> string list \<Rightarrow> bool \<Rightarrow> 'cs \<Rightarrow> 'cs" where
  "selectors_loop setProperty el r [] matched cs = cs"
| "selectors_loop setProperty el r (selector # selectors) matched cs =
     (if selector \<noteq> [] \<and> selector \<noteq> '','' \<and> \<not> matched \<and> matchesDontThrow el selector
      then selectors_loop setProperty el r selectors True (setProperties setProperty (style r) cs)
      else selectors_loop setProperty el r selectors matched cs)"

definition setPropertiesFromRule ::
  "('cs \<Rightarrow> string \<Rightarrow> string \<Rightarrow> string \<Rightarrow> 'cs) \<Rightarrow> node \<Rightarrow> 'cs \<Rightarrow> rule \<Rightarrow> 'cs" where
  "setPropertiesFromRule setProperty el cs r =
     (case selectorText r of
        None \<Rightarrow> cs
      | Some text \<Rightarrow>
          if text = [] then cs
          else selectors_loop setProperty el r (split_cssSelectorSplitRE text) False cs)"

text \<open>
  \<^verbatim>\<open>readStylesFromStyleSheet\<close>: a rule with \<^verbatim>\<open>media\<close> gives its inner rules to
  \<^verbatim>\<open>setPropertiesFromRule\<close> when \<^verbatim>\<open>"screen"\<close> is one of the media; \<^verbatim>\<open>forEach\<close> on inner rules
  that do not exist is a TypeError. Any other rule goes to \<^verbatim>\<open>setPropertiesFromRule\<close>.
\<close>

fun readStylesFromStyleSheet ::
  "('cs \<Rightarrow> string \<Rightarrow> string \<Rightarrow> string \<Rightarrow> 'cs) \<Rightarrow> node \<Rightarrow> 'cs \<Rightarrow> sheet \<Rightarrow> js_error + 'cs" where
  "readStylesFromStyleSheet setProperty el cs [] = Inr cs"
| "readStylesFromStyleSheet setProperty el cs (r # rules) =
     (case media r of
        Some m \<Rightarrow>
          if ''screen'' \<in> set m then
            (case cssRules r of
               None \<Rightarrow> Inl TypeError
             | Some inner \<Rightarrow>
                 readStylesFromStyleSheet setProperty el
                   (foldl (setPropertiesFromRule setProperty el) cs inner) rules)
          else readStylesFromStyleSheet setProperty el cs rules
      | None \<Rightarrow>
          readStylesFromStyleSheet setProperty el (setPropertiesFromRule setProperty el cs r) rules)"

fun readStyleSheets ::
  "('cs \<Rightarrow> string \<Rightarrow> string \<Rightarrow> string \<Rightarrow> 'cs) \<Rightarrow> node \<Rightarrow> 'cs \<Rightarrow> sheet list \<Rightarrow> js_error + 'cs" where
  "readStyleSheets setProperty el cs [] = Inr cs"
| "readStyleSheets setProperty el cs (sh # sheets) =
     (case readStylesFromStyleSheet setProperty el cs sh of
        Inl e \<Rightarrow> Inl e
      | Inr cs' \<Rightarrow> readStyleSheets setProperty el cs' sheets)"

text \<open>
  \<^verbatim>\<open>getComputedStyle(node)\<close>. \<open>defaultStyleSheet\<close> is the parsed built-in sheet, a constant of
  the module whose text is in another file of the repository; it is a parameter.
\<close>

definition getComputedStyle ::
  "('cs \<Rightarrow> string \<Rightarrow> string \<Rightarrow> string \<Rightarrow> 'cs) \<Rightarrow> sheet \<Rightarrow> node \<Rightarrow> 'cs \<Rightarrow> js_error + 'cs" where
  "getComputedStyle setProperty defaultStyleSheet el cs =
     (case readStylesFromStyleSheet setProperty el cs defaultStyleSheet of
        Inl e \<Rightarrow> Inl e
      | Inr cs1 \<Rightarrow>
          (case readStyleSheets setProperty el cs1 (styleSheets el) of
             Inl e \<Rightarrow> Inl e
           | Inr cs2 \<Rightarrow> Inr (setProperties setProperty (n_style el) cs2)))"

subsection \<open>The order of the declarations, as the specification words it\<close>

text \<open>
  A write is a call of \<^verbatim>\<open>setProperty\<close>: name, value, priority. The specification's account:
  a rule applies when one of the branches of its selector list matches the element; a
  rule under a media qualifier counts only when the qualifier includes \<^verbatim>\<open>screen\<close> and a
  rule without one always counts; the declarations of the default sheet come first, then
  those of the document's sheets in document order, then the inline ones.
\<close>

type_synonym css_write = "string \<times> string \<times> string"

definition style_writes :: "css_style \<Rightarrow> css_write list" where
  "style_writes s = map (\<lambda>property. (property, getPropertyValue s property, getPropertyPriority s property)) (names s)"

definition rule_matches :: "node \<Rightarrow> rule \<Rightarrow> bool" where
  "rule_matches el r =
     (case selectorText r of
        None \<Rightarrow> False
      | Some text \<Rightarrow>
          text \<noteq> [] \<and>
          list_ex (\<lambda>selector. selector \<noteq> [] \<and> selector \<noteq> '','' \<and> matchesDontThrow el selector)
            (split_cssSelectorSplitRE text))"

definition rule_writes :: "node \<Rightarrow> rule \<Rightarrow> css_write list" where
  "rule_writes el r = (if rule_matches el r then style_writes (style r) else [])"

definition sheet_writes :: "node \<Rightarrow> sheet \<Rightarrow> css_write list" where
  "sheet_writes el sh =
     concat (map (\<lambda>r. case media r of
                         None \<Rightarrow> rule_writes el r
                       | Some m \<Rightarrow>
                           if ''screen'' \<in> set m
                           then concat (map (rule_writes el) (case cssRules r of None \<Rightarrow> [] | Some inner \<Rightarrow> inner))
                           else [])
               sh)"

definition computed_writes :: "sheet \<Rightarrow> node \<Rightarrow> css_write list" where
  "computed_writes defaultStyleSheet el =
     sheet_writes el defaultStyleSheet @ concat (map (sheet_writes el) (styleSheets el)) @
     style_writes (n_style el)"

definition apply_write :: "('cs \<Rightarrow> string \<Rightarrow> string \<Rightarrow> string \<Rightarrow> 'cs) \<Rightarrow> 'cs \<Rightarrow> css_write \<Rightarrow> 'cs" where
  "apply_write setProperty cs w = setProperty cs (fst w) (fst (snd w)) (snd (snd w))"

text \<open>The sheets have what the loops read: a rule for \<^verbatim>\<open>screen\<close> has inner rules.\<close>

definition readable_rule :: "rule \<Rightarrow> bool" where
  "readable_rule r =
     (case media r of
        None \<Rightarrow> True
      | Some m \<Rightarrow> (if ''screen'' \<in> set m then cssRules r \<noteq> None else True))"

definition readable_sheets :: "sheet list \<Rightarrow> bool" where
  "readable_sheets sheets = list_all (list_all readable_rule) sheets"

text \<open>
  The \<^verbatim>\<open>setProperty\<close> of the package, as far as the examples need it, on a block that
  holds a value and a priority per name: an empty value removes the name; a value that
  the package's parser for the property rejects leaves the block as it is; a value it
  accepts is stored in the form the parser gives it, with the priority. The parser is the
  parameter \<open>parse\<close>. \<open>result_property\<close> reads a name off the result of
  \<open>getComputedStyle\<close>.
\<close>

definition setProperty_parsing ::
  "(string \<Rightarrow> string \<Rightarrow> string option) \<Rightarrow> (string \<rightharpoonup> string \<times> string) \<Rightarrow> string \<Rightarrow> string \<Rightarrow> string \<Rightarrow>
   (string \<rightharpoonup> string \<times> string)" where
  "setProperty_parsing parse cs name v priority =
     (if v = [] then cs(name := None)
      else (case parse name v of None \<Rightarrow> cs | Some v' \<Rightarrow> cs(name \<mapsto> (v', priority))))"

definition result_property ::
  "js_error + (string \<rightharpoonup> string \<times> string) \<Rightarrow> string \<Rightarrow> (string \<times> string) option" where
  "result_property res name = (case res of Inl e \<Rightarrow> None | Inr cs \<Rightarrow> cs name)"

text \<open>
  For examples: a \<^verbatim>\<open>div\<close> element with the inline style \<^verbatim>\<open>color: blue\<close> in a document whose
  only sheet is \<^verbatim>\<open>div, p { color: red }\<close>.
\<close>

definition red_rule :: rule where
  "red_rule =
     Rule (Some ''div, p'') \<lparr>names = [''color''], table = [(''color'', ''red'', [])]\<rparr> None None"

definition blue_div :: node where
  "blue_div =
     \<lparr>n_style = \<lparr>names = [''color''], table = [(''color'', ''blue'', [])]\<rparr>,
      styleSheets = [[red_rule]],
      matches = (\<lambda>selector. if selector = ''div'' then Some True
                            else if selector = '' p'' then Some False else None)\<rparr>"

text \<open>
  A default sheet for examples: a rule for \<^verbatim>\<open>div\<close>, a rule under \<^verbatim>\<open>@media print\<close> and a rule
  under \<^verbatim>\<open>@media screen\<close>.
\<close>

definition example_default_sheet :: sheet where
  "example_default_sheet =
     [Rule (Some ''div'') \<lparr>names = [''display''], table = [(''display'', ''block'', [])]\<rparr> None None,
      Rule None \<lparr>names = [], table = []\<rparr> (Some [''print''])
        (Some [Rule (Some ''div'') \<lparr>names = [''color''], table = [(''color'', ''black'', [])]\<rparr> None None]),
      Rule None \<lparr>names = [], table = []\<rparr> (Some [''screen''])
        (Some [Rule (Some ''div'') \<lparr>names = [''color'', ''margin''],
                                    table = [(''color'', ''green'', []), (''margin'', ''0'', ''important'')]\<rparr> None None])]"

text \<open>
  A parser for examples: a width or margin of \<^verbatim>\<open>0\<close> becomes \<^verbatim>\<open>0px\<close>, \<^verbatim>\<open>10px\<close> is a length, any
  other width or margin is rejected; values of other properties are taken as they are.
  And a \<^verbatim>\<open>div\<close> element under the sheet \<^verbatim>\<open>div { width: 10px } div { width: banana }\<close>.
\<close>

definition example_parse :: "string \<Rightarrow> string \<Rightarrow> string option" where
  "example_parse name v =
     (if name = ''width'' \<or> name = ''margin''
      then (if v = ''0'' then Some ''0px'' else if v = ''10px'' then Some ''10px'' else None)
      else Some v)"

definition banana_div :: node where
  "banana_div =
     \<lparr>n_style = \<lparr>names = [], table = []\<rparr>,
      styleSheets =
        [[Rule (Some ''div'') \<lparr>names = [''width''], table = [(''width'', ''10px'', [])]\<rparr> None None,
          Rule (Some ''div'') \<lparr>names = [''width''], table = [(''width'', ''banana'', [])]\<rparr> None None]],
      matches = (\<lambda>selector. if selector = ''div'' then Some True else None)\<rparr>"

section \<open>Properties of the virtual console\<close>

text \<open>
  What \<open>on\<close> and \<open>sendTo\<close> leave in the router when they return, and how the listeners
  of two parts of a router run one after the other.
\<close>

lemma on_Inr: "on env h r name l = (Inr r', tr) \<Longrightarrow> r' = r @ [(name, l)]"
  by (auto simp: on_def split: if_splits prod.splits sum.splits)

lemma sendTo_loop_Inr:
  "sendTo_loop env h r arguments methods = (Inr r', tr) \<Longrightarrow> r' = r @ forwards h arguments methods"
proof (induction methods arbitrary: r tr)
  case Nil
  then show ?case by (simp add: forwards_def)
next
  case (Cons m ms)
  show ?case
  proof (cases "get_prop h (arg arguments 0) m")
    case (Inl e)
    with Cons.prems show ?thesis by simp
  next
    case (Inr v)
    show ?thesis
    proof (cases "is_function v")
      case False
      with Inr Cons.prems have "sendTo_loop env h r arguments ms = (Inr r', tr)" by simp
      from Cons.IH[OF this] Inr False show ?thesis by (simp add: forwards_def)
    next
      case True
      with Inr Cons.prems obtain r1 t1 t2 where
        a: "on env h r m (Forward (arg arguments 0) m arguments) = (Inr r1, t1)"
        and b: "sendTo_loop env h r1 arguments ms = (Inr r', t2)"
        by (auto split: prod.splits sum.splits)
      from on_Inr[OF a] Cons.IH[OF b] Inr True show ?thesis by (simp add: forwards_def)
    qed
  qed
qed

lemma sendTo_Inr:
  assumes "sendTo env h r arguments = (Inr r', tr)"
  obtains methods where "object_keys h (arg arguments 0) = Inr methods"
    and "r' = r @ forwards h arguments methods @
           (if omitJsdomErrors h arguments then [] else [(''jsdomError'', JsdomError (arg arguments 0))])"
proof -
  from assms obtain methods where k: "object_keys h (arg arguments 0) = Inr methods"
    by (cases "object_keys h (arg arguments 0)") (auto simp: sendTo_def)
  with assms obtain r1 t1 where l: "sendTo_loop env h r arguments methods = (Inr r1, t1)"
    by (auto simp: sendTo_def Let_def split: prod.splits sum.splits)
  note r1 = sendTo_loop_Inr[OF l]
  show ?thesis
  proof (cases "omitJsdomErrors h arguments")
    case True
    with assms k l have "r' = r1"
      by (auto simp: sendTo_def Let_def omitJsdomErrors_def split: sum.splits if_splits)
    with r1 True k that show ?thesis by simp
  next
    case False
    with assms k l obtain t2 where "on env h r1 ''jsdomError'' (JsdomError (arg arguments 0)) = (Inr r', t2)"
      by (auto simp: sendTo_def Let_def omitJsdomErrors_def split: sum.splits if_splits prod.splits)
    from on_Inr[OF this] r1 False k that show ?thesis by simp
  qed
qed

lemma run_listeners_append:
  "run_listeners env h (ls @ ls') args =
     (case run_listeners env h ls args of
        (Inl e, tr) \<Rightarrow> (Inl e, tr)
      | (Inr u, tr) \<Rightarrow> (case run_listeners env h ls' args of (res, tr') \<Rightarrow> (res, tr @ tr')))"
  by (induction ls) (auto split: prod.splits sum.splits)

lemma listeners_append: "listeners (r @ r') name = listeners r name @ listeners r' name"
  by (simp add: listeners_def)

text \<open>
  Claim C7. Emitting any event with any arguments on a router that has no sink attached,
  that is on the router as the constructor leaves it, does not raise: the result is a
  normal return, with no call made. For \<^verbatim>\<open>error\<close> this is due to the standing no-op
  listener, which is the event's only listener (the emission reports a listener, for
  every other event it reports none); \<open>emit_error_without_listener_raises\<close> below shows
  that an emitter without it throws.
\<close>

theorem emit_without_sinks_never_raises:
  "emit env h constructor name args = (Inr (name = ''error''), [])"
  by (simp add: emit_def constructor_def listeners_def)

lemma emit_error_without_listener_raises:
  "emit env h [] ''error'' args = (Inl (UnhandledError (arg args 0)), [])"
  by (simp add: emit_def listeners_def)

lemma invoke_Forward_ignores_emitted_arguments:
  "invoke env h (Forward anyConsole method arguments) args =
   invoke env h (Forward anyConsole method arguments) args'"
  by simp

text \<open>
  Claim C1 says that a sink's method receives exactly the argument list of the emitted
  event. The forwarding listener passes the \<^verbatim>\<open>arguments\<close> of \<^verbatim>\<open>sendTo\<close> instead: whatever
  is emitted, the method is called with the sink (and the options, when given). Here the
  sink of \<open>console_heap\<close> is attached to a new router and \<^verbatim>\<open>log\<close> is emitted with
  \<^verbatim>\<open>"hello"\<close>: the sink's \<^verbatim>\<open>log\<close> (function 1) is called once, with the sink as its only
  argument.
\<close>

theorem sendTo_forwards_sendTo_arguments:
  "sendTo (\<lambda>f. False) console_heap constructor [Ref 0] =
     (Inr [(''error'', NoOp), (''log'', Forward (Ref 0) ''log'' [Ref 0]),
           (''error'', Forward (Ref 0) ''error'' [Ref 0]), (''jsdomError'', JsdomError (Ref 0))], []) \<and>
   emit (\<lambda>f. False) console_heap
     [(''error'', NoOp), (''log'', Forward (Ref 0) ''log'' [Ref 0]),
      (''error'', Forward (Ref 0) ''error'' [Ref 0]), (''jsdomError'', JsdomError (Ref 0))]
     ''log'' [Str ''hello''] = (Inr True, [Call 1 (Ref 0) [Ref 0]])"
  by (simp add: sendTo_def Let_def console_heap_def constructor_def on_def listeners_def emit_def)

text \<open>
  Claim C2. Whenever \<open>sendTo\<close> returns, the router has gained the forwarding listeners
  and, unless the options set \<^verbatim>\<open>omitJsdomErrors\<close>, one \<^verbatim>\<open>jsdomError\<close> listener for the sink
  as its last listener; with the option set it has gained the forwarding listeners only.
  In the first case, emitting \<^verbatim>\<open>jsdomError\<close> with a failure \<open>e\<close> later (in any heap where the
  sink's \<^verbatim>\<open>error\<close> is a function \<open>f\<close>), once the listeners registered before have run
  without raising, calls \<open>f\<close> on the sink with \<^verbatim>\<open>e.stack\<close> and \<^verbatim>\<open>e.detail\<close>, in this order, as
  the last call of the emission.
\<close>

theorem sendTo_jsdomError:
  assumes "sendTo env h r arguments = (Inr r', tr)"
  shows "\<exists>methods. object_keys h (arg arguments 0) = Inr methods \<and>
     r' = r @ forwards h arguments methods @
            (if omitJsdomErrors h arguments then [] else [(''jsdomError'', JsdomError (arg arguments 0))]) \<and>
     (\<not> omitJsdomErrors h arguments \<longrightarrow>
        (\<forall>env' h' e f stack detail tr0.
           get_prop h' (arg arguments 0) ''error'' = Inr (Fn f) \<and>
           get_prop h' e ''stack'' = Inr stack \<and> get_prop h' e ''detail'' = Inr detail \<and>
           run_listeners env' h' (listeners (r @ forwards h arguments methods) ''jsdomError'') [e] = (Inr (), tr0) \<longrightarrow>
           emit env' h' r' ''jsdomError'' [e] =
             (if env' f then Inl (Thrown f) else Inr True, tr0 @ [Call f (arg arguments 0) [stack, detail]])))"
proof -
  from assms obtain methods where k: "object_keys h (arg arguments 0) = Inr methods"
    and r': "r' = r @ forwards h arguments methods @
           (if omitJsdomErrors h arguments then [] else [(''jsdomError'', JsdomError (arg arguments 0))])"
    by (rule sendTo_Inr)
  have "emit env' h' r' ''jsdomError'' [e] =
          (if env' f then Inl (Thrown f) else Inr True, tr0 @ [Call f (arg arguments 0) [stack, detail]])"
    if no: "\<not> omitJsdomErrors h arguments"
      and err: "get_prop h' (arg arguments 0) ''error'' = Inr (Fn f)"
      and st: "get_prop h' e ''stack'' = Inr stack" and de: "get_prop h' e ''detail'' = Inr detail"
      and run: "run_listeners env' h' (listeners (r @ forwards h arguments methods) ''jsdomError'') [e] = (Inr (), tr0)"
    for env' h' e f stack detail tr0
  proof -
    from no r' have ls: "listeners r' ''jsdomError'' =
        listeners (r @ forwards h arguments methods) ''jsdomError'' @ [JsdomError (arg arguments 0)]"
      by (simp add: listeners_def)
    have "run_listeners env' h' (listeners r' ''jsdomError'') [e] =
        (if env' f then Inl (Thrown f) else Inr (), tr0 @ [Call f (arg arguments 0) [stack, detail]])"
      unfolding ls run_listeners_append run by (simp add: err st de)
    moreover have "listeners r' ''jsdomError'' \<noteq> []" unfolding ls by simp
    ultimately show ?thesis by (simp add: emit_def)
  qed
  with k r' show ?thesis by blast
qed

theorem sendTo_jsdomError_witness:
  "sendTo (\<lambda>f. False) console_heap constructor [Ref 0] =
     (Inr [(''error'', NoOp), (''log'', Forward (Ref 0) ''log'' [Ref 0]),
           (''error'', Forward (Ref 0) ''error'' [Ref 0]), (''jsdomError'', JsdomError (Ref 0))], []) \<and>
   emit (\<lambda>f. False) console_heap
     [(''error'', NoOp), (''log'', Forward (Ref 0) ''log'' [Ref 0]),
      (''error'', Forward (Ref 0) ''error'' [Ref 0]), (''jsdomError'', JsdomError (Ref 0))]
     ''jsdomError'' [Ref 1] = (Inr True, [Call 2 (Ref 0) [Str ''Error: boom'', Str ''at line 3'']]) \<and>
   sendTo (\<lambda>f. False) console_heap constructor [Ref 0, Ref 2] =
     (Inr [(''error'', NoOp), (''log'', Forward (Ref 0) ''log'' [Ref 0, Ref 2]),
           (''error'', Forward (Ref 0) ''error'' [Ref 0, Ref 2])], [])"
proof -
  have a: "sendTo (\<lambda>f. False) console_heap constructor [Ref 0] =
     (Inr [(''error'', NoOp), (''log'', Forward (Ref 0) ''log'' [Ref 0]),
           (''error'', Forward (Ref 0) ''error'' [Ref 0]), (''jsdomError'', JsdomError (Ref 0))], [])"
    by (simp add: sendTo_def Let_def console_heap_def constructor_def on_def listeners_def)
  have b: "sendTo (\<lambda>f. False) console_heap constructor [Ref 0, Ref 2] =
     (Inr [(''error'', NoOp), (''log'', Forward (Ref 0) ''log'' [Ref 0, Ref 2]),
           (''error'', Forward (Ref 0) ''error'' [Ref 0, Ref 2])], [])"
    by (simp add: sendTo_def Let_def console_heap_def constructor_def on_def listeners_def)
  have no: "\<not> omitJsdomErrors console_heap [Ref 0]" by (simp add: omitJsdomErrors_def)
  from sendTo_jsdomError[OF a] no
  have "emit (\<lambda>f. False) console_heap
     [(''error'', NoOp), (''log'', Forward (Ref 0) ''log'' [Ref 0]),
      (''error'', Forward (Ref 0) ''error'' [Ref 0]), (''jsdomError'', JsdomError (Ref 0))]
     ''jsdomError'' [Ref 1] = (Inr True, [] @ [Call 2 (Ref 0) [Str ''Error: boom'', Str ''at line 3'']])"
    by (auto simp: console_heap_def forwards_def listeners_def constructor_def)
  with a b show ?thesis by simp
qed

section \<open>Properties of the timer registry\<close>

text \<open>
  Each call of a timer method keeps the registry a subsequence of what was there followed
  by what the call registered; so the registry is always in registration order.
\<close>

lemma registrations_append [simp]: "registrations (a @ b) = registrations a @ registrations b"
  by (simp add: registrations_def)

lemma registrations_Nil [simp]: "registrations [] = []"
  by (simp add: registrations_def)

lemma subseq_remove: "subseq (before @ rest) (before @ found # rest)"
proof -
  have "subseq rest (found # rest)" by (rule list_emb_Cons) simp
  then show ?thesis by (simp add: subseq_append')
qed

lemma stopTimer_scan_Some:
  "stopTimer_scan ident ts = Some (before, found, rest) \<Longrightarrow>
   ts = before @ found # rest \<and> fst found = ident \<and> ident \<notin> fst ` set before"
proof (induction ts arbitrary: before)
  case Nil
  then show ?case by simp
next
  case (Cons t ts)
  show ?case
  proof (cases "fst t = ident")
    case True
    with Cons.prems show ?thesis by simp
  next
    case False
    with Cons.prems obtain b where b: "stopTimer_scan ident ts = Some (b, found, rest)" and "before = t # b"
      by (auto split: option.splits)
    with Cons.IH[OF b] False show ?thesis by auto
  qed
qed

lemma stopTimer_scan_None: "stopTimer_scan ident ts = None \<Longrightarrow> ident \<notin> fst ` set ts"
  by (induction ts) (auto split: if_splits option.splits)

lemma stopTimer_subseq:
  "stopTimer win ident = (win', effs) \<Longrightarrow> subseq (w_timers win') (w_timers win) \<and> registrations effs = []"
  by (auto simp: stopTimer_def registrations_def subseq_remove split: if_splits option.splits
      dest!: stopTimer_scan_Some)

lemma startTimer_registers:
  "startTimer hst win startFn stopFn callback ms = Inr (res, hst', win', effs) \<Longrightarrow>
   w_timers win' = w_timers win @ [(res, stopFn)] \<and> effs = [Start startFn callback ms res]"
  by (auto simp: startTimer_def host_start_def split: if_splits)

lemma timer_step_subseq:
  assumes "timer_step (hst, win, effs) c = (hst', win', effs')"
  shows "\<exists>new. effs' = effs @ new \<and> subseq (w_timers win') (w_timers win @ registrations new)"
proof (cases c)
  case (CallSetTimeout fn ms)
  show ?thesis
  proof (cases "startTimer hst win SetTimeout ClearTimeout fn ms")
    case (Inl e)
    with assms CallSetTimeout show ?thesis by simp
  next
    case (Inr p)
    then obtain res h1 w1 e1 where p: "startTimer hst win SetTimeout ClearTimeout fn ms = Inr (res, h1, w1, e1)"
      by (cases p) auto
    from startTimer_registers[OF p] p assms CallSetTimeout show ?thesis
      by (auto simp: registrations_def)
  qed
next
  case (CallSetInterval fn ms)
  show ?thesis
  proof (cases "startTimer hst win SetInterval ClearInterval fn ms")
    case (Inl e)
    with assms CallSetInterval show ?thesis by simp
  next
    case (Inr p)
    then obtain res h1 w1 e1 where p: "startTimer hst win SetInterval ClearInterval fn ms = Inr (res, h1, w1, e1)"
      by (cases p) auto
    from startTimer_registers[OF p] p assms CallSetInterval show ?thesis
      by (auto simp: registrations_def)
  qed
next
  case (CallClearTimeout ident)
  obtain w1 e1 where p: "stopTimer win ident = (w1, e1)" by (cases "stopTimer win ident")
  from stopTimer_subseq[OF p] p assms CallClearTimeout show ?thesis
    by (auto intro: subseq_order.trans)
next
  case (CallClearInterval ident)
  obtain w1 e1 where p: "stopTimer win ident = (w1, e1)" by (cases "stopTimer win ident")
  from stopTimer_subseq[OF p] p assms CallClearInterval show ?thesis
    by (auto intro: subseq_order.trans)
qed

lemma timer_calls_subseq:
  "timer_calls (hst, win, effs) cs = (hst', win', effs') \<Longrightarrow>
   \<exists>new. effs' = effs @ new \<and> subseq (w_timers win') (w_timers win @ registrations new)"
proof (induction cs arbitrary: hst win effs)
  case Nil
  then show ?case by (simp add: timer_calls_def)
next
  case (Cons c cs)
  obtain h1 w1 e1 where s: "timer_step (hst, win, effs) c = (h1, w1, e1)"
    by (cases "timer_step (hst, win, effs) c")
  from timer_step_subseq[OF s] obtain n1 where
    n1: "e1 = effs @ n1" "subseq (w_timers w1) (w_timers win @ registrations n1)" by blast
  from Cons.prems s have "timer_calls (h1, w1, e1) cs = (hst', win', effs')"
    by (simp add: timer_calls_def)
  from Cons.IH[OF this] obtain n2 where
    n2: "effs' = e1 @ n2" "subseq (w_timers win') (w_timers w1 @ registrations n2)" by blast
  from n1(2) have "subseq (w_timers w1 @ registrations n2) ((w_timers win @ registrations n1) @ registrations n2)"
    by (rule list_emb_append_mono) simp
  with n2(2) have "subseq (w_timers win') (w_timers win @ registrations (n1 @ n2))"
    by (auto intro: subseq_order.trans)
  with n1 n2 show ?case by auto
qed

text \<open>
  The registry against the calls: what a call removes and adds, then the whole sequence.
\<close>

lemma stops_append [simp]: "stops (a @ b) = stops a @ stops b"
  by (simp add: stops_def)

lemma stops_Nil [simp]: "stops [] = []"
  by (simp add: stops_def)

lemma Timer_case_iff:
  "(case v of Undefined \<Rightarrow> False | Null \<Rightarrow> False | Bool b \<Rightarrow> False | Num k \<Rightarrow> False
      | Str x \<Rightarrow> False | Ref c \<Rightarrow> False | Fn f \<Rightarrow> False | ListenerFn \<Rightarrow> False | Timer t \<Rightarrow> P t) =
   (\<exists>t. v = Timer t \<and> P t)"
  by (cases v) auto

lemma registry_ok_handles:
  "registry_ok hst reg \<Longrightarrow> t \<in> set reg \<Longrightarrow> \<exists>k<next_timer hst. fst t = Timer k"
  by (auto simp: registry_ok_def list_all_iff Timer_case_iff)

lemma registry_ok_push:
  assumes "registry_ok hst reg"
  shows "registry_ok (hst\<lparr>next_timer := Suc (next_timer hst)\<rparr>) (reg @ [(Timer (next_timer hst), stopFn)])"
proof -
  have "Timer (next_timer hst) \<notin> fst ` set reg"
  proof
    assume "Timer (next_timer hst) \<in> fst ` set reg"
    then obtain t where "t \<in> set reg" "fst t = Timer (next_timer hst)" by auto
    with registry_ok_handles[OF assms] show False by fastforce
  qed
  with assms show ?thesis
    by (auto simp: registry_ok_def list_all_iff Timer_case_iff less_Suc_eq)
qed

lemma registry_ok_remove:
  "registry_ok hst (before @ found # rest) \<Longrightarrow> registry_ok hst (before @ rest)"
  by (auto simp: registry_ok_def)

lemma filter_not_in_handles:
  "ident \<notin> fst ` set reg \<Longrightarrow> filter (\<lambda>t. fst t \<notin> insert ident A) reg = filter (\<lambda>t. fst t \<notin> A) reg"
  by (induction reg) auto

lemma stopTimer_pending:
  assumes ok: "registry_ok hst (w_timers win)" and st: "stopTimer win ident = (win', effs)"
  shows "registry_ok hst (w_timers win') \<and>
         filter (\<lambda>t. fst t \<notin> set (clear_idents cs)) (w_timers win') =
         filter (\<lambda>t. fst t \<notin> insert ident (set (clear_idents cs))) (w_timers win) \<and>
         mset (w_timers win) = mset (w_timers win') + mset (stops effs)"
proof (cases "ident = Undefined")
  case True
  have "Undefined \<notin> fst ` set (w_timers win)"
  proof
    assume "Undefined \<in> fst ` set (w_timers win)"
    then obtain t where "t \<in> set (w_timers win)" "fst t = Undefined" by auto
    with registry_ok_handles[OF ok] show False by fastforce
  qed
  from filter_not_in_handles[OF this, of "set (clear_idents cs)"] True st ok show ?thesis
    by (simp add: stopTimer_def)
next
  case False
  show ?thesis
  proof (cases "stopTimer_scan ident (w_timers win)")
    case None
    from filter_not_in_handles[OF stopTimer_scan_None[OF None], of "set (clear_idents cs)"]
      False st ok None show ?thesis
      by (simp add: stopTimer_def)
  next
    case (Some p)
    obtain before found rest where p: "p = (before, found, rest)" by (cases p)
    from stopTimer_scan_Some[OF Some[unfolded p]] have
      reg: "w_timers win = before @ found # rest" and f: "fst found = ident" by auto
    from ok reg have "distinct (map fst (before @ found # rest))" by (simp add: registry_ok_def)
    with f have "ident \<notin> fst ` set (before @ rest)" by auto
    from filter_not_in_handles[OF this, of "set (clear_idents cs)"] f
    have "filter (\<lambda>t. fst t \<notin> set (clear_idents cs)) (before @ rest) =
          filter (\<lambda>t. fst t \<notin> insert ident (set (clear_idents cs))) (before @ found # rest)"
      by simp
    moreover from st False Some p have "w_timers win' = before @ rest" "effs = [Stop (snd found) ident]"
      by (auto simp: stopTimer_def)
    moreover from ok reg have "registry_ok hst (before @ rest)" by (auto dest: registry_ok_remove)
    moreover from f have "found = (ident, snd found)" by (cases found) auto
    ultimately show ?thesis using reg by (simp add: stops_def)
  qed
qed

lemma timer_calls_Cons: "timer_calls st (c # cs) = timer_calls (timer_step st c) cs"
  by (simp add: timer_calls_def)

lemma timer_calls_pending:
  "registry_ok hst (w_timers win) \<Longrightarrow> timer_calls (hst, win, effs) cs = (hst', win', effs') \<Longrightarrow>
   w_timers win' =
     filter (\<lambda>t. fst t \<notin> set (clear_idents cs)) (w_timers win) @ pending_timers (next_timer hst) cs \<and>
   (\<exists>new. effs' = effs @ new \<and>
      mset (w_timers win) + mset (registrations new) = mset (w_timers win') + mset (stops new))"
proof (induction cs arbitrary: hst win effs)
  case Nil
  then show ?case by (simp add: timer_calls_def)
next
  case (Cons c cs)
  have start: ?case
    if c: "timer_step (hst, win, effs) c =
             (case startTimer hst win startFn stopFn fn ms of
                Inl e \<Rightarrow> (hst, win, effs)
              | Inr (res, hst', win', effs') \<Rightarrow> (hst', win', effs @ effs'))"
      and p: "pending_timers (next_timer hst) (c # cs) =
             (if is_function fn
              then (if Timer (next_timer hst) \<in> set (clear_idents cs) then [] else [(Timer (next_timer hst), stopFn)]) @
                   pending_timers (Suc (next_timer hst)) cs
              else pending_timers (next_timer hst) cs)"
      and r: "registration (Start startFn fn ms (Timer (next_timer hst))) = [(Timer (next_timer hst), stopFn)]"
      and ci: "clear_idents (c # cs) = clear_idents cs"
    for startFn stopFn fn ms
  proof (cases "is_function fn")
    case False
    with c have "timer_step (hst, win, effs) c = (hst, win, effs)"
      by (simp add: startTimer_def host_start_def)
    with Cons.prems(2) have "timer_calls (hst, win, effs) cs = (hst', win', effs')"
      by (simp add: timer_calls_Cons)
    from Cons.IH[OF Cons.prems(1) this] obtain new where
      a: "w_timers win' = filter (\<lambda>t. fst t \<notin> set (clear_idents cs)) (w_timers win) @ pending_timers (next_timer hst) cs"
      and b: "effs' = effs @ new"
      and m: "mset (w_timers win) + mset (registrations new) = mset (w_timers win') + mset (stops new)"
      by blast
    from a False p ci have "w_timers win' =
        filter (\<lambda>t. fst t \<notin> set (clear_idents (c # cs))) (w_timers win) @ pending_timers (next_timer hst) (c # cs)"
      by simp
    with b m show ?thesis by blast
  next
    case True
    let ?h = "hst\<lparr>next_timer := Suc (next_timer hst)\<rparr>"
    let ?w = "win\<lparr>w_timers := w_timers win @ [(Timer (next_timer hst), stopFn)]\<rparr>"
    let ?e = "effs @ [Start startFn fn ms (Timer (next_timer hst))]"
    from True c have "timer_step (hst, win, effs) c = (?h, ?w, ?e)"
      by (simp add: startTimer_def host_start_def)
    with Cons.prems(2) have run: "timer_calls (?h, ?w, ?e) cs = (hst', win', effs')"
      by (simp add: timer_calls_Cons)
    from registry_ok_push[OF Cons.prems(1)] have "registry_ok ?h (w_timers ?w)" by simp
    from Cons.IH[OF this run] obtain new where
      a: "w_timers win' = filter (\<lambda>t. fst t \<notin> set (clear_idents cs)) (w_timers ?w) @ pending_timers (next_timer ?h) cs"
      and b: "effs' = ?e @ new"
      and m: "mset (w_timers ?w) + mset (registrations new) = mset (w_timers win') + mset (stops new)"
      by blast
    from a True p ci have 1: "w_timers win' =
        filter (\<lambda>t. fst t \<notin> set (clear_idents (c # cs))) (w_timers win) @ pending_timers (next_timer hst) (c # cs)"
      by simp
    from b have 2: "effs' = effs @ (Start startFn fn ms (Timer (next_timer hst)) # new)" by simp
    from m r have 3: "mset (w_timers win) + mset (registrations (Start startFn fn ms (Timer (next_timer hst)) # new)) =
        mset (w_timers win') + mset (stops (Start startFn fn ms (Timer (next_timer hst)) # new))"
      by (simp add: registrations_def stops_def)
    from 1 2 3 show ?thesis by blast
  qed
  have clear: ?case
    if c: "timer_step (hst, win, effs) c = (case stopTimer win ident of (win', effs') \<Rightarrow> (hst, win', effs @ effs'))"
      and p: "pending_timers (next_timer hst) (c # cs) = pending_timers (next_timer hst) cs"
      and ci: "clear_idents (c # cs) = ident # clear_idents cs"
    for ident
  proof -
    obtain w1 e1 where st: "stopTimer win ident = (w1, e1)" by (cases "stopTimer win ident")
    from stopTimer_pending[OF Cons.prems(1) st, of cs] have
      ok: "registry_ok hst (w_timers w1)"
      and f: "filter (\<lambda>t. fst t \<notin> set (clear_idents cs)) (w_timers w1) =
              filter (\<lambda>t. fst t \<notin> insert ident (set (clear_idents cs))) (w_timers win)"
      and m1: "mset (w_timers win) = mset (w_timers w1) + mset (stops e1)" by auto
    from stopTimer_subseq[OF st] have r1: "registrations e1 = []" by simp
    from c st Cons.prems(2) have run: "timer_calls (hst, w1, effs @ e1) cs = (hst', win', effs')"
      by (simp add: timer_calls_Cons)
    from Cons.IH[OF ok run] obtain new where
      a: "w_timers win' = filter (\<lambda>t. fst t \<notin> set (clear_idents cs)) (w_timers w1) @ pending_timers (next_timer hst) cs"
      and b: "effs' = (effs @ e1) @ new"
      and m: "mset (w_timers w1) + mset (registrations new) = mset (w_timers win') + mset (stops new)"
      by blast
    from a f p ci have 1: "w_timers win' =
        filter (\<lambda>t. fst t \<notin> set (clear_idents (c # cs))) (w_timers win) @ pending_timers (next_timer hst) (c # cs)"
      by simp
    from b have 2: "effs' = effs @ (e1 @ new)" by simp
    from m m1 r1 have 3: "mset (w_timers win) + mset (registrations (e1 @ new)) =
        mset (w_timers win') + mset (stops (e1 @ new))"
      by (simp add: ac_simps)
    from 1 2 3 show ?thesis by blast
  qed
  show ?case
  proof (cases c)
    case (CallSetTimeout fn ms)
    then show ?thesis by (intro start[of SetTimeout ClearTimeout fn ms]) simp_all
  next
    case (CallSetInterval fn ms)
    then show ?thesis by (intro start[of SetInterval ClearInterval fn ms]) simp_all
  next
    case (CallClearTimeout ident)
    then show ?thesis by (intro clear[of ident]) simp_all
  next
    case (CallClearInterval ident)
    then show ?thesis by (intro clear[of ident]) simp_all
  qed
qed

text \<open>
  Claim C4. After any sequence of \<^verbatim>\<open>setTimeout\<close>, \<^verbatim>\<open>setInterval\<close>, \<^verbatim>\<open>clearTimeout\<close> and
  \<^verbatim>\<open>clearInterval\<close> calls on a new window, the registry holds exactly the timers that were
  scheduled and not cancelled afterwards, in the order in which they were scheduled, each
  with the cancel function of its kind (\<open>pending_timers\<close>); every timer registered during the
  calls is either still in the registry or had its stored cancel function called on it,
  once. \<^verbatim>\<open>stopAllTimers\<close> calls the stored cancel function of each entry with its handle, in
  that order, and leaves the registry empty; called again, it calls nothing and changes
  nothing. Being a total function that returns a value, it does not raise.
\<close>

theorem stopAllTimers_after_calls:
  "case timer_calls (hst, \<lparr>w_timers = [], w_document = d, w_length = n, w_frames = fs, w_events = es\<rparr>, []) cs of
     (hst', win, effs) \<Rightarrow>
       w_timers win = pending_timers (next_timer hst) cs \<and>
       subseq (w_timers win) (registrations effs) \<and>
       mset (registrations effs) = mset (w_timers win) + mset (stops effs) \<and>
       (case stopAllTimers win of
          (win', effs') \<Rightarrow>
            effs' = map (\<lambda>t. Stop (snd t) (fst t)) (w_timers win) \<and>
            effs' = map (\<lambda>t. Stop (snd t) (fst t)) (pending_timers (next_timer hst) cs) \<and>
            w_timers win' = [] \<and>
            stopAllTimers win' = (win', []))"
proof -
  let ?w = "\<lparr>w_timers = [], w_document = d, w_length = n, w_frames = fs, w_events = es\<rparr>"
  obtain hst' win effs where r: "timer_calls (hst, ?w, []) cs = (hst', win, effs)"
    by (cases "timer_calls (hst, ?w, []) cs")
  from timer_calls_subseq[OF r] have s: "subseq (w_timers win) (registrations effs)" by auto
  have "registry_ok hst (w_timers ?w)" by (simp add: registry_ok_def)
  from timer_calls_pending[OF this r]
  have p: "w_timers win = pending_timers (next_timer hst) cs"
    and m: "mset (registrations effs) = mset (w_timers win) + mset (stops effs)" by auto
  from r s p m show ?thesis by (simp add: stopAllTimers_def)
qed

theorem stopAllTimers_after_calls_witness:
  "pending_timers 0 example_calls = [(Timer 0, ClearTimeout), (Timer 2, ClearTimeout)] \<and>
   (case timer_calls (\<lparr>next_timer = 0\<rparr>,
                      \<lparr>w_timers = [], w_document = None, w_length = 0, w_frames = [], w_events = []\<rparr>, [])
           example_calls of
      (hst', win, effs) \<Rightarrow>
        w_timers win = [(Timer 0, ClearTimeout), (Timer 2, ClearTimeout)] \<and>
        fst (stopAllTimers win) = win\<lparr>w_timers := []\<rparr> \<and>
        snd (stopAllTimers win) = [Stop ClearTimeout (Timer 0), Stop ClearTimeout (Timer 2)] \<and>
        stopAllTimers (fst (stopAllTimers win)) = (fst (stopAllTimers win), []))"
proof -
  have p: "pending_timers 0 example_calls = [(Timer 0, ClearTimeout), (Timer 2, ClearTimeout)]"
    by (simp add: example_calls_def)
  from stopAllTimers_after_calls[where hst = "\<lparr>next_timer = 0\<rparr>" and d = None and n = 0
      and fs = "[]" and es = "[]" and cs = example_calls]
  show ?thesis
    using p by (auto simp: stopAllTimers_def split: prod.splits)
qed

lemma example_calls_run:
  "timer_calls (\<lparr>next_timer = 0\<rparr>,
                \<lparr>w_timers = [], w_document = None, w_length = 0, w_frames = [], w_events = []\<rparr>, [])
     example_calls =
     (\<lparr>next_timer = 3\<rparr>,
      \<lparr>w_timers = [(Timer 0, ClearTimeout), (Timer 2, ClearTimeout)], w_document = None, w_length = 0,
        w_frames = [], w_events = []\<rparr>,
      [Start SetTimeout (Fn 1) (Num 10) (Timer 0), Start SetInterval (Fn 2) (Num 5) (Timer 1),
       Start SetTimeout (Fn 3) (Num 5) (Timer 2), Stop ClearInterval (Timer 1)])"
  by (simp add: example_calls_def timer_calls_def startTimer_def host_start_def stopTimer_def)

section \<open>Properties of closing a window\<close>

subsection \<open>Fuel\<close>

text \<open>A result reached with some fuel is the result with any more fuel.\<close>

lemma fuel_Suc:
  "(\<forall>s w r. close n s w = Some r \<longrightarrow> close (Suc n) s w = Some r) \<and>
   (\<forall>s cur v r. windowCleaner n s cur v = Some r \<longrightarrow> windowCleaner (Suc n) s cur v = Some r) \<and>
   (\<forall>s cur c i r. windowCleaner_loop n s cur c i = Some r \<longrightarrow> windowCleaner_loop (Suc n) s cur c i = Some r)"
proof (induction n)
  case 0
  show ?case by simp
next
  case (Suc n)
  have c: "\<And>s w r. close n s w = Some r \<Longrightarrow> close (Suc n) s w = Some r"
    and k: "\<And>s cur v r. windowCleaner n s cur v = Some r \<Longrightarrow> windowCleaner (Suc n) s cur v = Some r"
    and l: "\<And>s cur c i r. windowCleaner_loop n s cur c i = Some r \<Longrightarrow> windowCleaner_loop (Suc n) s cur c i = Some r"
    using Suc.IH by blast+
  have 1: "close (Suc (Suc n)) s w = Some r" if a: "close (Suc n) s w = Some r" for s w r
  proof -
    from a obtain r1 where b: "windowCleaner n s w (Ref w) = Some r1"
      by (auto split: option.splits)
    from k[OF b] a b show ?thesis by (auto simp del: windowCleaner.simps)
  qed
  have 2: "windowCleaner (Suc (Suc n)) s cur v = Some r" if a: "windowCleaner (Suc n) s cur v = Some r" for s cur v r
  proof (cases v)
    case (Ref c)
    from a Ref obtain r1 where b: "windowCleaner_loop n s cur c 0 = Some r1"
      by (auto split: option.splits)
    note b' = l[OF b]
    show ?thesis
    proof (cases r1)
      case (Inl e)
      with a b b' Ref show ?thesis by (auto simp del: windowCleaner_loop.simps close.simps)
    next
      case (Inr p)
      obtain s1 t1 where p: "p = (s1, t1)" by (cases p)
      show ?thesis
      proof (cases "c = cur")
        case True
        with a b b' Ref Inr p show ?thesis by (auto simp del: windowCleaner_loop.simps close.simps)
      next
        case False
        with a b Ref Inr p obtain r2 where d: "close n s1 c = Some r2"
          by (auto split: option.splits)
        from c[OF d] a b b' d Ref Inr p False show ?thesis
          by (auto simp del: windowCleaner_loop.simps close.simps)
      qed
    qed
  qed (use a in auto)
  have 3: "windowCleaner_loop (Suc (Suc n)) s cur c i = Some r" if a: "windowCleaner_loop (Suc n) s cur c i = Some r" for s cur c i r
  proof (cases "s c")
    case None
    with a show ?thesis by simp
  next
    case (Some win)
    show ?thesis
    proof (cases "i < w_length win")
      case False
      with a Some show ?thesis by simp
    next
      case True
      with a Some obtain r1 where b: "windowCleaner n s cur (arg (w_frames win) i) = Some r1"
        by (auto split: option.splits)
      note b' = k[OF b]
      show ?thesis
      proof (cases r1)
        case (Inl e)
        with a b b' Some True show ?thesis
          by (auto simp del: windowCleaner.simps)
      next
        case (Inr p)
        obtain s1 t1 where p: "p = (s1, t1)" by (cases p)
        from a b Some True Inr p obtain r2 where d: "windowCleaner_loop n s1 cur c (Suc i) = Some r2"
          by (auto split: option.splits)
        have a': "r = (case r2 of Inl e \<Rightarrow> Inl e | Inr (s2, t2) \<Rightarrow> Inr (s2, t1 @ t2))"
          using a b d Some True Inr p by (auto split: sum.splits)
        show ?thesis
          by (subst windowCleaner_loop.simps)
            (use b' l[OF d] Some True Inr p a' in \<open>auto simp del: windowCleaner.simps windowCleaner_loop.simps split: sum.splits\<close>)
      qed
    qed
  qed
  from 1 2 3 show ?case by blast
qed

lemma close_fuel: "close n s w = Some r \<Longrightarrow> n \<le> m \<Longrightarrow> close m s w = Some r"
  by (induction m) (use fuel_Suc le_Suc_eq in auto)

subsection \<open>What one round of each function does\<close>

text \<open>
  The three functions unfolded once, for a run that returns; then \<open>close_partial_rule\<close>,
  the induction over the fuel that every property of returning runs below goes through:
  a property of the three functions holds of every run that returns when it is preserved
  by each of their steps.
\<close>

lemma close_SucE:
  assumes "close (Suc n) s w = Some (Inr (s', tr))"
  obtains s1 t1 win where "windowCleaner n s w (Ref w) = Some (Inr (s1, t1))"
    and "s1 w = Some win"
    and "s' = s1(w \<mapsto> fst (close_self w win))"
    and "tr = t1 @ snd (close_self w win) @ [Closed w]"
  using assms by (auto split: option.splits sum.splits prod.splits)

lemma windowCleaner_SucE:
  assumes "windowCleaner (Suc n) s cur v = Some (Inr (s', tr))"
  obtains c s1 t1 where "v = Ref c" and "windowCleaner_loop n s cur c 0 = Some (Inr (s1, t1))"
    and "c = cur \<Longrightarrow> s' = s1 \<and> tr = t1"
    and "c \<noteq> cur \<Longrightarrow> \<exists>t2. close n s1 c = Some (Inr (s', t2)) \<and> tr = t1 @ t2"
  using assms by (cases v) (auto split: option.splits sum.splits prod.splits if_splits)

lemma windowCleaner_loop_SucE:
  assumes "windowCleaner_loop (Suc n) s cur c i = Some (Inr (s', tr))"
  obtains win where "s c = Some win"
    and "\<not> i < w_length win \<Longrightarrow> s' = s \<and> tr = []"
    and "i < w_length win \<Longrightarrow> \<exists>s1 t1 t2.
           windowCleaner n s cur (arg (w_frames win) i) = Some (Inr (s1, t1)) \<and>
           windowCleaner_loop n s1 cur c (Suc i) = Some (Inr (s', t2)) \<and> tr = t1 @ t2"
  using assms by (auto split: option.splits sum.splits prod.splits if_splits)

lemma close_self_frames:
  "w_length (fst (close_self w win)) = w_length win \<and> w_frames (fst (close_self w win)) = w_frames win"
  by (simp add: close_self_def stopAllTimers_def Let_def)

lemma close_self_closed:
  "w_document (fst (close_self w win)) = None \<and> w_timers (fst (close_self w win)) = []"
  by (simp add: close_self_def stopAllTimers_def Let_def)

lemma frames_of_upd:
  "s w = Some win \<Longrightarrow> frames_of (s(w \<mapsto> fst (close_self w win))) = frames_of s"
  by (auto simp: frames_of_def close_self_frames)

lemma frames_preserved:
  "(\<forall>s w s' tr. close n s w = Some (Inr (s', tr)) \<longrightarrow> frames_of s' = frames_of s) \<and>
   (\<forall>s cur v s' tr. windowCleaner n s cur v = Some (Inr (s', tr)) \<longrightarrow> frames_of s' = frames_of s) \<and>
   (\<forall>s cur c i s' tr. windowCleaner_loop n s cur c i = Some (Inr (s', tr)) \<longrightarrow> frames_of s' = frames_of s)"
proof (induction n)
  case 0
  show ?case by simp
next
  case (Suc n)
  have c: "\<And>s w s' tr. close n s w = Some (Inr (s', tr)) \<Longrightarrow> frames_of s' = frames_of s"
    and k: "\<And>s cur v s' tr. windowCleaner n s cur v = Some (Inr (s', tr)) \<Longrightarrow> frames_of s' = frames_of s"
    and l: "\<And>s cur c i s' tr. windowCleaner_loop n s cur c i = Some (Inr (s', tr)) \<Longrightarrow> frames_of s' = frames_of s"
    using Suc.IH by blast+
  have 1: "frames_of s' = frames_of s" if a: "close (Suc n) s w = Some (Inr (s', tr))" for s w s' tr
    using a by (rule close_SucE) (use k frames_of_upd in auto)
  have 2: "frames_of s' = frames_of s" if a: "windowCleaner (Suc n) s cur v = Some (Inr (s', tr))" for s cur v s' tr
    using a
  proof (rule windowCleaner_SucE)
    fix c' s1 t1
    assume "windowCleaner_loop n s cur c' 0 = Some (Inr (s1, t1))"
      and "c' = cur \<Longrightarrow> s' = s1 \<and> tr = t1"
      and "c' \<noteq> cur \<Longrightarrow> \<exists>t2. close n s1 c' = Some (Inr (s', t2)) \<and> tr = t1 @ t2"
    then show ?thesis using c l by (cases "c' = cur") auto
  qed
  have 3: "frames_of s' = frames_of s" if a: "windowCleaner_loop (Suc n) s cur c i = Some (Inr (s', tr))" for s cur c i s' tr
    using a
  proof (rule windowCleaner_loop_SucE)
    fix win
    assume "\<not> i < w_length win \<Longrightarrow> s' = s \<and> tr = []"
      and "i < w_length win \<Longrightarrow> \<exists>s1 t1 t2.
           windowCleaner n s cur (arg (w_frames win) i) = Some (Inr (s1, t1)) \<and>
           windowCleaner_loop n s1 cur c (Suc i) = Some (Inr (s', t2)) \<and> tr = t1 @ t2"
    then show ?thesis using k l by (cases "i < w_length win") auto
  qed
  from 1 2 3 show ?case by blast
qed

lemma close_partial_rule:
  assumes C: "\<And>n s w s1 t1 win.
        windowCleaner n s w (Ref w) = Some (Inr (s1, t1)) \<Longrightarrow> K s w (Ref w) s1 t1 \<Longrightarrow> s1 w = Some win \<Longrightarrow>
        P s w (s1(w \<mapsto> fst (close_self w win))) (t1 @ snd (close_self w win) @ [Closed w])"
    and K1: "\<And>n s cur s1 t1.
        windowCleaner_loop n s cur cur 0 = Some (Inr (s1, t1)) \<Longrightarrow> L s cur cur 0 s1 t1 \<Longrightarrow>
        K s cur (Ref cur) s1 t1"
    and K2: "\<And>n s cur c s1 t1 s2 t2.
        c \<noteq> cur \<Longrightarrow> windowCleaner_loop n s cur c 0 = Some (Inr (s1, t1)) \<Longrightarrow> L s cur c 0 s1 t1 \<Longrightarrow>
        close n s1 c = Some (Inr (s2, t2)) \<Longrightarrow> P s1 c s2 t2 \<Longrightarrow>
        K s cur (Ref c) s2 (t1 @ t2)"
    and L1: "\<And>s cur c i win. s c = Some win \<Longrightarrow> \<not> i < w_length win \<Longrightarrow> L s cur c i s []"
    and L2: "\<And>n s cur c i win s1 t1 s2 t2.
        s c = Some win \<Longrightarrow> i < w_length win \<Longrightarrow>
        windowCleaner n s cur (arg (w_frames win) i) = Some (Inr (s1, t1)) \<Longrightarrow>
        K s cur (arg (w_frames win) i) s1 t1 \<Longrightarrow>
        windowCleaner_loop n s1 cur c (Suc i) = Some (Inr (s2, t2)) \<Longrightarrow> L s1 cur c (Suc i) s2 t2 \<Longrightarrow>
        L s cur c i s2 (t1 @ t2)"
  shows "(\<forall>s w s' tr. close n s w = Some (Inr (s', tr)) \<longrightarrow> P s w s' tr) \<and>
         (\<forall>s cur v s' tr. windowCleaner n s cur v = Some (Inr (s', tr)) \<longrightarrow> K s cur v s' tr) \<and>
         (\<forall>s cur c i s' tr. windowCleaner_loop n s cur c i = Some (Inr (s', tr)) \<longrightarrow> L s cur c i s' tr)"
proof (induction n)
  case 0
  show ?case by simp
next
  case (Suc n)
  have c: "\<And>s w s' tr. close n s w = Some (Inr (s', tr)) \<Longrightarrow> P s w s' tr"
    and k: "\<And>s cur v s' tr. windowCleaner n s cur v = Some (Inr (s', tr)) \<Longrightarrow> K s cur v s' tr"
    and l: "\<And>s cur c i s' tr. windowCleaner_loop n s cur c i = Some (Inr (s', tr)) \<Longrightarrow> L s cur c i s' tr"
    using Suc.IH by blast+
  have 1: "P s w s' tr" if a: "close (Suc n) s w = Some (Inr (s', tr))" for s w s' tr
    using a by (rule close_SucE) (use k C in auto)
  have 2: "K s cur v s' tr" if a: "windowCleaner (Suc n) s cur v = Some (Inr (s', tr))" for s cur v s' tr
    using a
  proof (rule windowCleaner_SucE)
    fix c' s1 t1
    assume v: "v = Ref c'" and b: "windowCleaner_loop n s cur c' 0 = Some (Inr (s1, t1))"
      and e: "c' = cur \<Longrightarrow> s' = s1 \<and> tr = t1"
      and d: "c' \<noteq> cur \<Longrightarrow> \<exists>t2. close n s1 c' = Some (Inr (s', t2)) \<and> tr = t1 @ t2"
    show ?thesis
    proof (cases "c' = cur")
      case True
      with K1[of n s cur s1 t1] b e l v show ?thesis by auto
    next
      case False
      with d obtain t2 where f: "close n s1 c' = Some (Inr (s', t2))" and g: "tr = t1 @ t2" by blast
      from K2[of c' cur n s s1 t1 s' t2] False b l[OF b] f c[OF f] v g show ?thesis by simp
    qed
  qed
  have 3: "L s cur c i s' tr" if a: "windowCleaner_loop (Suc n) s cur c i = Some (Inr (s', tr))" for s cur c i s' tr
    using a
  proof (rule windowCleaner_loop_SucE)
    fix win
    assume w: "s c = Some win" and e: "\<not> i < w_length win \<Longrightarrow> s' = s \<and> tr = []"
      and d: "i < w_length win \<Longrightarrow> \<exists>s1 t1 t2.
           windowCleaner n s cur (arg (w_frames win) i) = Some (Inr (s1, t1)) \<and>
           windowCleaner_loop n s1 cur c (Suc i) = Some (Inr (s', t2)) \<and> tr = t1 @ t2"
    show ?thesis
    proof (cases "i < w_length win")
      case False
      with e L1[of s c win i cur] w show ?thesis by simp
    next
      case True
      with d obtain s1 t1 t2 where f: "windowCleaner n s cur (arg (w_frames win) i) = Some (Inr (s1, t1))"
        and g: "windowCleaner_loop n s1 cur c (Suc i) = Some (Inr (s', t2))" and h: "tr = t1 @ t2" by blast
      from L2[of s c win i n cur s1 t1 s' t2] w True f k[OF f] g l[OF g] h show ?thesis by simp
    qed
  qed
  from 1 2 3 show ?case by blast
qed

subsection \<open>Frame trees and what closing leaves alone\<close>

text \<open>
  Closing changes no \<^verbatim>\<open>length\<close> and no slot, so a frame tree stays one. A run on a tree of
  depth \<open>h\<close> touches only windows that have a tree of depth \<open>h\<close> below them; a window
  that is closed stays closed; and on a frame tree every run returns, given enough fuel.
\<close>

lemma windowCleaner_fuel: "windowCleaner n s cur v = Some r \<Longrightarrow> n \<le> m \<Longrightarrow> windowCleaner m s cur v = Some r"
  by (induction m) (use fuel_Suc le_Suc_eq in auto)

lemma windowCleaner_loop_fuel:
  "windowCleaner_loop n s cur c i = Some r \<Longrightarrow> n \<le> m \<Longrightarrow> windowCleaner_loop m s cur c i = Some r"
  by (induction m) (use fuel_Suc le_Suc_eq in auto)

lemma frames_of_eqD:
  "frames_of s' = frames_of s \<Longrightarrow> s c = Some win \<Longrightarrow>
   \<exists>win'. s' c = Some win' \<and> w_length win' = w_length win \<and> w_frames win' = w_frames win"
  by (drule fun_cong[of _ _ c]) (auto simp: frames_of_def)

lemma Ref_case_iff:
  "(case v of Undefined \<Rightarrow> False | Null \<Rightarrow> False | Bool b \<Rightarrow> False | Num k \<Rightarrow> False
      | Str x \<Rightarrow> False | Ref c \<Rightarrow> P c | Fn f \<Rightarrow> False | ListenerFn \<Rightarrow> False | Timer t \<Rightarrow> False) =
   (\<exists>c. v = Ref c \<and> P c)"
  by (cases v) auto

lemma frame_tree_Suc_iff:
  "frame_tree s (Suc h) w =
     (\<exists>win. s w = Some win \<and>
        (\<forall>i<w_length win. \<exists>d. arg (w_frames win) i = Ref d \<and> frame_tree s h d))"
  by (auto simp: list_all_iff Ref_case_iff split: option.splits)

declare frame_tree.simps(2) [simp del]

lemma frame_tree_cong: "frames_of s' = frames_of s \<Longrightarrow> frame_tree s' h w = frame_tree s h w"
proof (induction h arbitrary: w)
  case 0
  show ?case by simp
next
  case (Suc h)
  note IH = Suc.IH[OF Suc.prems]
  show ?case
  proof
    assume "frame_tree s' (Suc h) w"
    then obtain win' where w: "s' w = Some win'"
      and f: "\<forall>i<w_length win'. \<exists>d. arg (w_frames win') i = Ref d \<and> frame_tree s' h d"
      unfolding frame_tree_Suc_iff by blast
    from frames_of_eqD[OF Suc.prems[symmetric] w] f IH show "frame_tree s (Suc h) w"
      unfolding frame_tree_Suc_iff by auto
  next
    assume "frame_tree s (Suc h) w"
    then obtain win where w: "s w = Some win"
      and f: "\<forall>i<w_length win. \<exists>d. arg (w_frames win) i = Ref d \<and> frame_tree s h d"
      unfolding frame_tree_Suc_iff by blast
    from frames_of_eqD[OF Suc.prems w] f IH show "frame_tree s' (Suc h) w"
      unfolding frame_tree_Suc_iff by auto
  qed
qed

lemma frame_tree_Suc: "frame_tree s h w \<Longrightarrow> frame_tree s (Suc h) w"
proof (induction h arbitrary: w)
  case 0
  then show ?case by simp
next
  case (Suc h)
  from Suc.prems obtain win where w: "s w = Some win"
    and f: "\<forall>i<w_length win. \<exists>d. arg (w_frames win) i = Ref d \<and> frame_tree s h d"
    unfolding frame_tree_Suc_iff by blast
  from f Suc.IH have "\<forall>i<w_length win. \<exists>d. arg (w_frames win) i = Ref d \<and> frame_tree s (Suc h) d"
    by blast
  with w show ?case unfolding frame_tree_Suc_iff[of s "Suc h"] by blast
qed

lemma frame_tree_child:
  "frame_tree s (Suc h) c \<Longrightarrow> s c = Some win \<Longrightarrow> i < w_length win \<Longrightarrow>
   \<exists>d. arg (w_frames win) i = Ref d \<and> frame_tree s h d"
  unfolding frame_tree_Suc_iff by auto

lemma frame_tree_window: "frame_tree s h w \<Longrightarrow> \<exists>win. s w = Some win"
  by (cases h) (auto simp: frame_tree_Suc_iff)

lemma close_self_no_Closed: "Closed x \<notin> set (snd (close_self w win))"
  by (auto simp: close_self_def stopAllTimers_def close_document_def Let_def split: option.splits)

lemma closed_persists:
  "(\<forall>s w s' tr. close n s w = Some (Inr (s', tr)) \<longrightarrow> (\<forall>x. closed_in s x \<longrightarrow> closed_in s' x)) \<and>
   (\<forall>s cur v s' tr. windowCleaner n s cur v = Some (Inr (s', tr)) \<longrightarrow> (\<forall>x. closed_in s x \<longrightarrow> closed_in s' x)) \<and>
   (\<forall>s cur c i s' tr. windowCleaner_loop n s cur c i = Some (Inr (s', tr)) \<longrightarrow> (\<forall>x. closed_in s x \<longrightarrow> closed_in s' x))"
  by (rule close_partial_rule) (auto simp: closed_in_def close_self_closed)

lemma untouched:
  "(\<forall>s w s' tr. close n s w = Some (Inr (s', tr)) \<longrightarrow>
      (\<forall>h x. frame_tree s h w \<and> \<not> frame_tree s h x \<longrightarrow> s' x = s x \<and> Closed x \<notin> set tr)) \<and>
   (\<forall>s cur v s' tr. windowCleaner n s cur v = Some (Inr (s', tr)) \<longrightarrow>
      (\<forall>h x c. v = Ref c \<and> frame_tree s h c \<and> \<not> frame_tree s h x \<longrightarrow> s' x = s x \<and> Closed x \<notin> set tr)) \<and>
   (\<forall>s cur c i s' tr. windowCleaner_loop n s cur c i = Some (Inr (s', tr)) \<longrightarrow>
      (\<forall>h x. frame_tree s (Suc h) c \<and> \<not> frame_tree s h x \<longrightarrow> s' x = s x \<and> Closed x \<notin> set tr))"
proof (rule close_partial_rule, goal_cases)
  case (1 n s w s1 t1 win)
  then show ?case by (auto simp: close_self_no_Closed)
next
  case (2 n s cur s1 t1)
  show ?case
  proof (intro allI impI, elim conjE)
    fix h x c
    assume a: "Ref cur = Ref c" "frame_tree s h c" "\<not> frame_tree s h x"
    then obtain h' where h: "h = Suc h'" by (cases h) auto
    with a frame_tree_Suc[of s h' x] have "\<not> frame_tree s h' x" by blast
    with 2 a h show "s1 x = s x \<and> Closed x \<notin> set t1" by auto
  qed
next
  case (3 n s cur c s1 t1 s2 t2)
  show ?case
  proof (intro allI impI, elim conjE)
    fix h x c'
    assume a: "Ref c = Ref c'" "frame_tree s h c'" "\<not> frame_tree s h x"
    then obtain h' where h: "h = Suc h'" by (cases h) auto
    with a frame_tree_Suc[of s h' x] have b: "\<not> frame_tree s h' x" by blast
    with 3 a h have e: "s1 x = s x \<and> Closed x \<notin> set t1" by auto
    from 3(2) frames_preserved[of n] have f: "frames_of s1 = frames_of s" by blast
    from a frame_tree_cong[OF f] have "frame_tree s1 h c" "\<not> frame_tree s1 h x" by auto
    with 3(5) have "s2 x = s1 x \<and> Closed x \<notin> set t2" by blast
    with e show "s2 x = s x \<and> Closed x \<notin> set (t1 @ t2)" by auto
  qed
next
  case (4 s cur c i win)
  then show ?case by simp
next
  case (5 n s cur c i win s1 t1 s2 t2)
  show ?case
  proof (intro allI impI, elim conjE)
    fix h x
    assume a: "frame_tree s (Suc h) c" "\<not> frame_tree s h x"
    from frame_tree_child[OF a(1) 5(1) 5(2)] obtain d where
      d: "arg (w_frames win) i = Ref d" "frame_tree s h d" by blast
    with 5(4) a have e: "s1 x = s x \<and> Closed x \<notin> set t1" by blast
    from 5(3) frames_preserved[of n] have f: "frames_of s1 = frames_of s" by blast
    from a frame_tree_cong[OF f] have "frame_tree s1 (Suc h) c" "\<not> frame_tree s1 h x" by auto
    with 5(6) have "s2 x = s1 x \<and> Closed x \<notin> set t2" by blast
    with e show "s2 x = s x \<and> Closed x \<notin> set (t1 @ t2)" by auto
  qed
qed

lemma windowCleaner_frames:
  "windowCleaner n s cur v = Some (Inr (s', tr)) \<Longrightarrow> frames_of s' = frames_of s"
  using frames_preserved[of n] by blast

lemma windowCleaner_loop_frames:
  "windowCleaner_loop n s cur c i = Some (Inr (s', tr)) \<Longrightarrow> frames_of s' = frames_of s"
  using frames_preserved[of n] by blast

lemma windowCleaner_loop_closed_persists:
  "windowCleaner_loop n s cur c i = Some (Inr (s', tr)) \<Longrightarrow> closed_in s x \<Longrightarrow> closed_in s' x"
  using closed_persists[of n] by blast

lemma children_closed:
  "(\<forall>s w s' tr. close n s w = Some (Inr (s', tr)) \<longrightarrow> closed_in s' w \<and> Closed w \<in> set tr) \<and>
   (\<forall>s cur v s' tr. windowCleaner n s cur v = Some (Inr (s', tr)) \<longrightarrow>
      (\<forall>c. v = Ref c \<and> c \<noteq> cur \<longrightarrow> closed_in s' c \<and> Closed c \<in> set tr)) \<and>
   (\<forall>s cur c i s' tr. windowCleaner_loop n s cur c i = Some (Inr (s', tr)) \<longrightarrow>
      (\<forall>win j d. s c = Some win \<and> i \<le> j \<and> j < w_length win \<and> arg (w_frames win) j = Ref d \<and> d \<noteq> cur \<longrightarrow>
         closed_in s' d \<and> Closed d \<in> set tr))"
proof (rule close_partial_rule, goal_cases)
  case (1 n s w s1 t1 win)
  then show ?case by (simp add: closed_in_def close_self_closed)
next
  case (2 n s cur s1 t1)
  then show ?case by simp
next
  case (3 n s cur c s1 t1 s2 t2)
  then show ?case by simp
next
  case (4 s cur c i win)
  then show ?case by auto
next
  case (5 n s cur c i win s1 t1 s2 t2)
  show ?case
  proof (intro allI impI, elim conjE)
    fix win' j d
    assume a: "s c = Some win'" "i \<le> j" "j < w_length win'" "arg (w_frames win') j = Ref d" "d \<noteq> cur"
    with 5(1) have [simp]: "win' = win" by simp
    from windowCleaner_frames[OF 5(3)] have f: "frames_of s1 = frames_of s" .
    from frames_of_eqD[OF f 5(1)] obtain win1 where
      w1: "s1 c = Some win1" "w_length win1 = w_length win" "w_frames win1 = w_frames win" by blast
    show "closed_in s2 d \<and> Closed d \<in> set (t1 @ t2)"
    proof (cases "j = i")
      case True
      with a 5(4) have "closed_in s1 d \<and> Closed d \<in> set t1" by simp
      with windowCleaner_loop_closed_persists[OF 5(5)] show ?thesis by auto
    next
      case False
      with a have "Suc i \<le> j" by simp
      with 5(6) w1 a have "closed_in s2 d \<and> Closed d \<in> set t2" by auto
      then show ?thesis by simp
    qed
  qed
qed

lemma windowCleaner_loop_total:
  assumes IH: "\<And>s cur c. frame_tree s h c \<Longrightarrow> \<exists>n s' tr. windowCleaner n s cur (Ref c) = Some (Inr (s', tr))"
  shows "frame_tree s (Suc h) c \<Longrightarrow> s c = Some win \<Longrightarrow> k = w_length win - i \<Longrightarrow>
         \<exists>n s' tr. windowCleaner_loop n s cur c i = Some (Inr (s', tr))"
proof (induction k arbitrary: s i win)
  case 0
  then have "windowCleaner_loop (Suc 0) s cur c i = Some (Inr (s, []))" by simp
  then show ?case by blast
next
  case (Suc k)
  then have lt: "i < w_length win" by simp
  from frame_tree_child[OF Suc.prems(1,2) lt] obtain d where
    d: "arg (w_frames win) i = Ref d" "frame_tree s h d" by blast
  from IH[OF d(2), of cur] obtain n1 s1 t1 where
    n1: "windowCleaner n1 s cur (Ref d) = Some (Inr (s1, t1))" by blast
  from windowCleaner_frames[OF n1] have f: "frames_of s1 = frames_of s" .
  from frames_of_eqD[OF f Suc.prems(2)] obtain win1 where
    w1: "s1 c = Some win1" "w_length win1 = w_length win" "w_frames win1 = w_frames win" by blast
  from Suc.prems(1) frame_tree_cong[OF f] have ft: "frame_tree s1 (Suc h) c" by simp
  from Suc.prems(3) w1 have "k = w_length win1 - Suc i" by simp
  from Suc.IH[OF ft w1(1) this] obtain n2 s2 t2 where
    n2: "windowCleaner_loop n2 s1 cur c (Suc i) = Some (Inr (s2, t2))" by blast
  from windowCleaner_fuel[OF n1, of "max n1 n2"] windowCleaner_loop_fuel[OF n2, of "max n1 n2"]
  have "windowCleaner_loop (Suc (max n1 n2)) s cur c i = Some (Inr (s2, t1 @ t2))"
    using Suc.prems(2) lt d by (simp del: windowCleaner.simps)
  then show ?case by blast
qed

lemma close_total_aux:
  "(\<forall>s w. frame_tree s h w \<longrightarrow> (\<exists>n s' tr. close n s w = Some (Inr (s', tr)))) \<and>
   (\<forall>s cur c. frame_tree s h c \<longrightarrow> (\<exists>n s' tr. windowCleaner n s cur (Ref c) = Some (Inr (s', tr))))"
proof (induction h)
  case 0
  show ?case by simp
next
  case (Suc h)
  then have IH: "\<And>s cur c. frame_tree s h c \<Longrightarrow> \<exists>n s' tr. windowCleaner n s cur (Ref c) = Some (Inr (s', tr))"
    by blast
  have own: "\<exists>n s' tr. windowCleaner n s c (Ref c) = Some (Inr (s', tr))" if ft: "frame_tree s (Suc h) c" for s c
  proof -
    from frame_tree_window[OF ft] obtain win where w: "s c = Some win" by blast
    from windowCleaner_loop_total[OF IH ft w refl, of c 0] obtain n s1 t1 where
      "windowCleaner_loop n s c c 0 = Some (Inr (s1, t1))" by blast
    then have "windowCleaner (Suc n) s c (Ref c) = Some (Inr (s1, t1))" by simp
    then show ?thesis by blast
  qed
  have cl: "\<exists>n s' tr. close n s w = Some (Inr (s', tr))" if ft: "frame_tree s (Suc h) w" for s w
  proof -
    from own[OF ft] obtain n s1 t1 where n: "windowCleaner n s w (Ref w) = Some (Inr (s1, t1))" by blast
    from windowCleaner_frames[OF n] have f: "frames_of s1 = frames_of s" .
    from frame_tree_window[OF ft] obtain win where "s w = Some win" by blast
    from frames_of_eqD[OF f this] obtain win1 where "s1 w = Some win1" by blast
    with n have "\<exists>s' tr. close (Suc n) s w = Some (Inr (s', tr))"
      by (simp del: windowCleaner.simps split: prod.splits)
    then show ?thesis by blast
  qed
  have "\<exists>n s' tr. windowCleaner n s cur (Ref c) = Some (Inr (s', tr))" if ft: "frame_tree s (Suc h) c" for s cur c
  proof (cases "c = cur")
    case True
    with own[OF ft] show ?thesis by simp
  next
    case False
    from frame_tree_window[OF ft] obtain win where w: "s c = Some win" by blast
    from windowCleaner_loop_total[OF IH ft w refl, of cur 0] obtain n1 s1 t1 where
      n1: "windowCleaner_loop n1 s cur c 0 = Some (Inr (s1, t1))" by blast
    from windowCleaner_loop_frames[OF n1] have f: "frames_of s1 = frames_of s" .
    from ft frame_tree_cong[OF f] have "frame_tree s1 (Suc h) c" by simp
    from cl[OF this] obtain n2 s2 t2 where n2: "close n2 s1 c = Some (Inr (s2, t2))" by blast
    from windowCleaner_loop_fuel[OF n1, of "max n1 n2"] close_fuel[OF n2, of "max n1 n2"] False
    have "windowCleaner (Suc (max n1 n2)) s cur (Ref c) = Some (Inr (s2, t1 @ t2))"
      by (simp del: close.simps windowCleaner_loop.simps)
    then show ?thesis by blast
  qed
  with cl show ?case by blast
qed

subsection \<open>Closing a frame tree\<close>

text \<open>
  A window with a frame tree has a least depth; at that depth the window is not among its
  own descendants, which is what keeps its state apart from what the recursion touches.
\<close>

lemma close_self_eq:
  "close_self w win =
     (win\<lparr>w_events := [], w_document := None, w_timers := []\<rparr>,
      (case w_document win of None \<Rightarrow> [] | Some d \<Rightarrow> close_document w d) @
      map (\<lambda>t. Stop (snd t) (fst t)) (w_timers win))"
  by (simp add: close_self_def stopAllTimers_def Let_def)

lemma windowCleaner_loop_untouched:
  "windowCleaner_loop n s cur c i = Some (Inr (s', tr)) \<Longrightarrow> frame_tree s (Suc h) c \<Longrightarrow>
   \<not> frame_tree s h x \<Longrightarrow> s' x = s x \<and> Closed x \<notin> set tr"
  using untouched[THEN conjunct2, THEN conjunct2, rule_format, of n s cur c i s' tr h x] by simp

lemma windowCleaner_loop_children_closed:
  "windowCleaner_loop n s cur c i = Some (Inr (s', tr)) \<Longrightarrow> s c = Some win \<Longrightarrow> i \<le> j \<Longrightarrow>
   j < w_length win \<Longrightarrow> arg (w_frames win) j = Ref d \<Longrightarrow> d \<noteq> cur \<Longrightarrow>
   closed_in s' d \<and> Closed d \<in> set tr"
  using children_closed[THEN conjunct2, THEN conjunct2, rule_format, of n s cur c i s' tr win j d] by simp

lemma close_closed: "close n s w = Some (Inr (s', tr)) \<Longrightarrow> closed_in s' w"
  using children_closed[THEN conjunct1, rule_format] by blast

lemma frame_tree_least:
  assumes "frame_tree s h w"
  obtains k where "frame_tree s (Suc k) w" and "\<not> frame_tree s k w"
proof -
  define m where "m = (LEAST k. frame_tree s k w)"
  from assms have a: "frame_tree s m w" unfolding m_def by (rule LeastI)
  then obtain k where k: "m = Suc k" by (cases m) auto
  have "\<not> frame_tree s k w"
  proof
    assume "frame_tree s k w"
    then have "m \<le> k" unfolding m_def by (rule Least_le)
    with k show False by simp
  qed
  with a k that show ?thesis by simp
qed

lemma closed_windows_set: "set (closed_windows tr) = {x. Closed x \<in> set tr}"
  by (induction tr rule: closed_windows.induct) auto

lemma frames_closed_first_Closed:
  "frames_closed_first s seen (Closed x # tr) =
     ((\<exists>win. s x = Some win \<and> (\<forall>i<w_length win. \<exists>d. arg (w_frames win) i = Ref d \<and> d \<in> set seen)) \<and>
      frames_closed_first s (x # seen) tr)"
  by (auto simp: list_all_iff Ref_case_iff split: option.splits)

declare frames_closed_first.simps(2) [simp del]

lemma frames_closed_first_mono:
  "frames_closed_first s seen tr \<Longrightarrow> set seen \<subseteq> set seen' \<Longrightarrow> frames_closed_first s seen' tr"
proof (induction tr arbitrary: seen seen')
  case Nil
  show ?case by simp
next
  case (Cons e tr)
  show ?case
  proof (cases e)
    case (Closed x)
    from Cons.prems(1)[unfolded Closed frames_closed_first_Closed] Cons.prems(2)
    have a: "\<exists>win. s x = Some win \<and> (\<forall>i<w_length win. \<exists>d. arg (w_frames win) i = Ref d \<and> d \<in> set seen')"
      and b: "frames_closed_first s (x # seen) tr" by blast+
    from Cons.prems(2) have "set (x # seen) \<subseteq> set (x # seen')" by auto
    from Cons.IH[OF b this] a show ?thesis unfolding Closed frames_closed_first_Closed by simp
  qed (use Cons in auto)
qed

lemma frames_closed_first_append:
  "frames_closed_first s seen (t1 @ t2) =
     (frames_closed_first s seen t1 \<and> frames_closed_first s (rev (closed_windows t1) @ seen) t2)"
proof (induction t1 arbitrary: seen)
  case Nil
  show ?case by simp
next
  case (Cons e t1)
  show ?case
  proof (cases e)
    case (Closed x)
    show ?thesis unfolding Closed by (simp add: frames_closed_first_Closed Cons.IH)
  qed (use Cons in auto)
qed

lemma frames_closed_first_cong:
  assumes "frames_of s' = frames_of s"
  shows "frames_closed_first s' seen tr = frames_closed_first s seen tr"
proof (induction tr arbitrary: seen)
  case Nil
  show ?case by simp
next
  case (Cons e tr)
  show ?case
  proof (cases e)
    case (Closed x)
    have "(\<exists>win. s' x = Some win \<and> (\<forall>i<w_length win. \<exists>d. arg (w_frames win) i = Ref d \<and> d \<in> set seen)) =
          (\<exists>win. s x = Some win \<and> (\<forall>i<w_length win. \<exists>d. arg (w_frames win) i = Ref d \<and> d \<in> set seen))"
      using frames_of_eqD[OF assms, of x] frames_of_eqD[OF assms[symmetric], of x] by auto
    then show ?thesis unfolding Closed frames_closed_first_Closed by (simp add: Cons.IH)
  qed (use Cons in auto)
qed

lemma close_self_closed_windows: "closed_windows (snd (close_self w win)) = []"
proof -
  have a: "closed_windows (map (\<lambda>t. Stop (snd t) (fst t)) ts) = []" for ts
    by (induction ts) auto
  have b: "closed_windows (t1 @ t2) = closed_windows t1 @ closed_windows t2" for t1 t2
    by (induction t1 rule: closed_windows.induct) auto
  show ?thesis
    by (simp add: close_self_eq a b close_document_def split: option.splits)
qed

lemma closed_windows_append: "closed_windows (t1 @ t2) = closed_windows t1 @ closed_windows t2"
  by (induction t1 rule: closed_windows.induct) auto

lemma frames_closed_first_no_Closed:
  "closed_windows tr = [] \<Longrightarrow> frames_closed_first s seen tr"
  by (induction tr rule: closed_windows.induct) auto

lemma frames_first:
  "(\<forall>s w s' tr. close n s w = Some (Inr (s', tr)) \<longrightarrow>
      (\<forall>h. frame_tree s h w \<longrightarrow> frames_closed_first s [] tr)) \<and>
   (\<forall>s cur v s' tr. windowCleaner n s cur v = Some (Inr (s', tr)) \<longrightarrow>
      (\<forall>h c. v = Ref c \<and> frame_tree s h c \<longrightarrow> frames_closed_first s [] tr)) \<and>
   (\<forall>s cur c i s' tr. windowCleaner_loop n s cur c i = Some (Inr (s', tr)) \<longrightarrow>
      (\<forall>h. frame_tree s h c \<longrightarrow> frames_closed_first s [] tr))"
proof (rule close_partial_rule, goal_cases)
  case (1 n s w s1 t1 win)
  show ?case
  proof (intro allI impI)
    fix h
    assume ft: "frame_tree s h w"
    with 1(2) have t1: "frames_closed_first s [] t1" by blast
    from ft obtain k where k: "frame_tree s (Suc k) w" and nk: "\<not> frame_tree s k w"
      by (rule frame_tree_least)
    from 1(1) obtain n2 where n2: "n = Suc n2" by (cases n) auto
    from 1(1)[unfolded n2] have lp: "windowCleaner_loop n2 s w w 0 = Some (Inr (s1, t1))"
      by (rule windowCleaner_SucE) auto
    from windowCleaner_loop_untouched[OF lp k nk] 1(3) have w: "s w = Some win" by simp
    have ch: "\<exists>d. arg (w_frames win) i = Ref d \<and> d \<in> set (closed_windows t1)" if i: "i < w_length win" for i
    proof -
      from frame_tree_child[OF k w i] obtain d where d: "arg (w_frames win) i = Ref d" "frame_tree s k d" by blast
      with nk have ne: "d \<noteq> w" by auto
      from windowCleaner_loop_children_closed[OF lp w _ i d(1) ne] d show ?thesis
        by (simp add: closed_windows_set)
    qed
    have "frames_closed_first s (rev (closed_windows t1)) (snd (close_self w win) @ [Closed w])"
      unfolding frames_closed_first_append
      using w ch by (simp add: frames_closed_first_no_Closed close_self_closed_windows frames_closed_first_Closed)
    with t1 show "frames_closed_first s [] (t1 @ snd (close_self w win) @ [Closed w])"
      by (simp add: frames_closed_first_append)
  qed
next
  case (2 n s cur s1 t1)
  then show ?case by simp
next
  case (3 n s cur c s1 t1 s2 t2)
  show ?case
  proof (intro allI impI, elim conjE)
    fix h c'
    assume a: "Ref c = Ref c'" "frame_tree s h c'"
    with 3(3) have t1: "frames_closed_first s [] t1" by auto
    from windowCleaner_loop_frames[OF 3(2)] have f: "frames_of s1 = frames_of s" .
    from a frame_tree_cong[OF f] 3(5) have "frames_closed_first s1 [] t2" by auto
    then have "frames_closed_first s [] t2" by (simp add: frames_closed_first_cong[OF f])
    then have "frames_closed_first s (rev (closed_windows t1)) t2"
      by (rule frames_closed_first_mono) simp
    with t1 show "frames_closed_first s [] (t1 @ t2)" by (simp add: frames_closed_first_append)
  qed
next
  case (4 s cur c i win)
  then show ?case by simp
next
  case (5 n s cur c i win s1 t1 s2 t2)
  show ?case
  proof (intro allI impI)
    fix h
    assume ft: "frame_tree s h c"
    then obtain h' where h: "h = Suc h'" by (cases h) auto
    from frame_tree_child[OF ft[unfolded h] 5(1) 5(2)] obtain d where
      d: "arg (w_frames win) i = Ref d" "frame_tree s h' d" by blast
    with 5(4) have t1: "frames_closed_first s [] t1" by blast
    from windowCleaner_frames[OF 5(3)] have f: "frames_of s1 = frames_of s" .
    from ft frame_tree_cong[OF f] 5(6) have "frames_closed_first s1 [] t2" by auto
    then have "frames_closed_first s [] t2" by (simp add: frames_closed_first_cong[OF f])
    then have "frames_closed_first s (rev (closed_windows t1)) t2"
      by (rule frames_closed_first_mono) simp
    with t1 show "frames_closed_first s [] (t1 @ t2)" by (simp add: frames_closed_first_append)
  qed
qed

lemma close_frames_closed_first:
  "close n s w = Some (Inr (s', tr)) \<Longrightarrow> frame_tree s h w \<Longrightarrow> frames_closed_first s [] tr"
  using frames_first[THEN conjunct1, rule_format, of n s w s' tr h] by simp

text \<open>
  Claim C3. On a window \<open>w\<close> whose frames form a tree of windows, \<^verbatim>\<open>close()\<close> returns
  (with enough fuel, and then with any more, the model gives the same result). Its
  trace \<open>tr\<close> ends with the window's own teardown: the effects on its document, then the
  stored cancel function of every entry of its timer registry called with the entry's
  handle, in registry order, then the return. Before that (\<open>pre\<close>) \<^verbatim>\<open>close()\<close> has returned
  on every frame of \<open>w\<close> and not on \<open>w\<close>, and throughout the trace no window is closed
  before each of its own frames has been. Afterwards \<open>w\<close> has no document and no timers,
  and neither has any of its frames.
\<close>

theorem close_closes_children_first:
  assumes "frame_tree s h w"
  shows "\<exists>n s' tr pre win.
           s w = Some win \<and>
           (\<forall>m\<ge>n. close m s w = Some (Inr (s', tr))) \<and>
           tr = pre @ (case w_document win of None \<Rightarrow> [] | Some d \<Rightarrow> close_document w d) @
                  map (\<lambda>t. Stop (snd t) (fst t)) (w_timers win) @ [Closed w] \<and>
           Closed w \<notin> set pre \<and>
           (\<forall>i<w_length win. \<exists>c. arg (w_frames win) i = Ref c \<and> Closed c \<in> set pre \<and> closed_in s' c) \<and>
           frames_closed_first s [] tr \<and>
           s' w = Some (win\<lparr>w_events := [], w_document := None, w_timers := []\<rparr>)"
proof -
  from assms obtain k where k: "frame_tree s (Suc k) w" and nk: "\<not> frame_tree s k w"
    by (rule frame_tree_least)
  from close_total_aux[of h] assms obtain n s' tr where c: "close n s w = Some (Inr (s', tr))" by blast
  then obtain n1 where n1: "n = Suc n1" by (cases n) auto
  from c[unfolded n1] obtain s1 t1 win1 where
    wc: "windowCleaner n1 s w (Ref w) = Some (Inr (s1, t1))" and w1: "s1 w = Some win1"
    and s': "s' = s1(w \<mapsto> fst (close_self w win1))" and tr: "tr = t1 @ snd (close_self w win1) @ [Closed w]"
    by (rule close_SucE)
  from wc obtain n2 where n2: "n1 = Suc n2" by (cases n1) auto
  from wc[unfolded n2] have lp: "windowCleaner_loop n2 s w w 0 = Some (Inr (s1, t1))"
    by (rule windowCleaner_SucE) auto
  from windowCleaner_loop_untouched[OF lp k nk] have un: "s1 w = s w" "Closed w \<notin> set t1" by auto
  with w1 have w: "s w = Some win1" by simp
  have ch: "\<exists>c. arg (w_frames win1) i = Ref c \<and> Closed c \<in> set t1 \<and> closed_in s' c" if i: "i < w_length win1" for i
  proof -
    from frame_tree_child[OF k w i] obtain d where d: "arg (w_frames win1) i = Ref d" "frame_tree s k d" by blast
    with nk have ne: "d \<noteq> w" by auto
    from windowCleaner_loop_children_closed[OF lp w _ i d(1) ne]
    have "closed_in s1 d" "Closed d \<in> set t1" by auto
    with ne s' d show ?thesis by (simp add: closed_in_def)
  qed
  have r: "tr = t1 @ (case w_document win1 of None \<Rightarrow> [] | Some d \<Rightarrow> close_document w d) @
                  map (\<lambda>t. Stop (snd t) (fst t)) (w_timers win1) @ [Closed w]"
    unfolding tr by (simp add: close_self_eq)
  have e: "s' w = Some (win1\<lparr>w_events := [], w_document := None, w_timers := []\<rparr>)"
    unfolding s' by (simp add: close_self_eq)
  from close_frames_closed_first[OF c assms] have f: "frames_closed_first s [] tr" .
  from close_fuel[OF c] have "\<forall>m\<ge>n. close m s w = Some (Inr (s', tr))" by blast
  with w r un(2) ch e f show ?thesis by blast
qed

lemma example_tree: "frame_tree example_store 3 0"
  by (simp add: frame_tree.simps(2) eval_nat_numeral example_store_def example_window_def)

theorem close_closes_children_first_witness:
  "frame_tree example_store 3 0 \<and>
   (\<exists>n s' tr pre win.
      example_store 0 = Some win \<and>
      (\<forall>m\<ge>n. close m example_store 0 = Some (Inr (s', tr))) \<and>
      tr = pre @ (case w_document win of None \<Rightarrow> [] | Some d \<Rightarrow> close_document 0 d) @
             map (\<lambda>t. Stop (snd t) (fst t)) (w_timers win) @ [Closed 0] \<and>
      Closed 0 \<notin> set pre \<and>
      (\<forall>i<w_length win. \<exists>c. arg (w_frames win) i = Ref c \<and> Closed c \<in> set pre \<and> closed_in s' c) \<and>
      frames_closed_first example_store [] tr \<and>
      s' 0 = Some (win\<lparr>w_events := [], w_document := None, w_timers := []\<rparr>))"
  using example_tree close_closes_children_first[OF example_tree] by blast

text \<open>
  The run on the example store, in full: window 3, two levels below window 0, is closed
  by the recursion of window 0 and again by \<^verbatim>\<open>close()\<close> of window 1; the second time it has no
  document and no timers left.
\<close>

lemma close_example_trace:
  "map_option (map_sum id snd) (close 15 example_store 0) =
     Some (Inr [BodyCleared 3, DocumentClose 3, Closed 3, Closed 3, BodyCleared 1,
                DocumentClose 1, Closed 1, BodyCleared 2, DocumentClose 2,
                Stop ClearInterval (Timer 8), Closed 2, BodyCleared 0, DocumentClose 0,
                Stop ClearTimeout (Timer 7), Closed 0])"
  by (simp add: eval_nat_numeral example_store_def example_window_def close_self_def
      close_document_def stopAllTimers_def Let_def)

text \<open>
  Claim C9. The deferred task does nothing on a window without a document: it returns
  with the store unchanged and no effect, so it creates and dispatches no event. That is
  the case on every window on which \<^verbatim>\<open>close()\<close> has returned before the task runs.
\<close>

theorem deferred_load_after_close:
  "(s w = Some win \<and> w_document win = None \<longrightarrow> deferred_load s w = Inr (s, [])) \<and>
   (close n s w = Some (Inr (s', tr)) \<longrightarrow> deferred_load s' w = Inr (s', []))"
proof (intro conjI impI)
  assume "s w = Some win \<and> w_document win = None"
  then show "deferred_load s w = Inr (s, [])" by (simp add: deferred_load_def)
next
  assume "close n s w = Some (Inr (s', tr))"
  from close_closed[OF this] obtain win' where "s' w = Some win'" "w_document win' = None"
    by (cases "s' w") (simp_all add: closed_in_def)
  then show "deferred_load s' w = Inr (s', [])" by (simp add: deferred_load_def)
qed

theorem deferred_load_after_close_witness:
  "close 3 single_store 0 =
     Some (Inr (single_store(0 \<mapsto> (example_window [] [])\<lparr>w_events := [], w_document := None\<rparr>),
                [BodyCleared 0, DocumentClose 0, Stop ClearTimeout (Timer 7), Closed 0])) \<and>
   deferred_load (single_store(0 \<mapsto> (example_window [] [])\<lparr>w_events := [], w_document := None\<rparr>)) 0 =
     Inr (single_store(0 \<mapsto> (example_window [] [])\<lparr>w_events := [], w_document := None\<rparr>), [])"
proof -
  have c: "close 3 single_store 0 =
     Some (Inr (single_store(0 \<mapsto> (example_window [] [])\<lparr>w_events := [], w_document := None\<rparr>),
                [BodyCleared 0, DocumentClose 0, Stop ClearTimeout (Timer 7), Closed 0]))"
    by (simp add: eval_nat_numeral single_store_def example_window_def close_self_def
        close_document_def stopAllTimers_def Let_def)
  from deferred_load_after_close[THEN conjunct2, rule_format, OF c] c show ?thesis by simp
qed

section \<open>Properties of the request wrapper\<close>

text \<open>\<open>fixUrlForBuggyXhr\<close> on the three kinds of URL, then \<^verbatim>\<open>open\<close> and \<^verbatim>\<open>send\<close>.\<close>

lemma fixUrlForBuggyXhr_drive:
  "is_letter c \<Longrightarrow> fixUrlForBuggyXhr (''file:///'' @ c # CHR '':'' # rest) = ''file://'' @ c # CHR '':'' # rest"
  by (simp add: fixUrlForBuggyXhr_def)

lemma fixUrlForBuggyXhr_example: "fixUrlForBuggyXhr ''file:///C:/test.html'' = ''file://C:/test.html''"
  by (simp add: fixUrlForBuggyXhr_def is_letter_def)

lemma fixUrlForBuggyXhr_other:
  "\<not> (\<exists>c rest. is_letter c \<and> url = ''file:///'' @ c # CHR '':'' # rest) \<Longrightarrow> fixUrlForBuggyXhr url = url"
proof -
  assume a: "\<not> (\<exists>c rest. is_letter c \<and> url = ''file:///'' @ c # CHR '':'' # rest)"
  show ?thesis
  proof (cases "take 8 url = ''file:///''")
    case False
    then show ?thesis by (simp add: fixUrlForBuggyXhr_def)
  next
    case True
    then have u: "url = ''file:///'' @ drop 8 url" by (metis append_take_drop_id)
    show ?thesis
    proof (cases "drop 8 url")
      case Nil
      with True show ?thesis by (simp add: fixUrlForBuggyXhr_def)
    next
      case (Cons c r)
      show ?thesis
      proof (cases r)
        case Nil
        with True Cons show ?thesis by (simp add: fixUrlForBuggyXhr_def)
      next
        case (Cons e rest)
        with \<open>drop 8 url = c # r\<close> u have "url = ''file:///'' @ c # e # rest" by simp
        with a have "\<not> (is_letter c \<and> e = CHR '':'')" by blast
        with True Cons \<open>drop 8 url = c # r\<close> show ?thesis by (auto simp: fixUrlForBuggyXhr_def)
      qed
    qed
  qed
qed

text \<open>
  Claim C8. In a window with a document, \<^verbatim>\<open>open(method, url, ...)\<close> resolves \<open>url\<close> against
  the document's URL, applies \<open>fixUrlForBuggyXhr\<close>, stores the result as \<open>lastUrl\<close> and calls
  the underlying \<^verbatim>\<open>open\<close> once, with that URL (and the other arguments as given); when
  the method is allowed the call returns and the URL is the one the request is set to.
  \<open>fixUrlForBuggyXhr\<close> turns a leading \<^verbatim>\<open>file:///\<close> followed by a drive letter and a colon into
  \<^verbatim>\<open>file://\<close> followed by them; so \<^verbatim>\<open>file:///C:/test.html\<close> becomes \<^verbatim>\<open>file://C:/test.html\<close>.
\<close>

theorem xhr_open_fixes_url:
  assumes "w_document win = Some d"
  shows "(case xhr_open resolveHref win x meth url async user password of
            (res, x') \<Rightarrow>
              lastUrl x' = fixUrlForBuggyXhr (resolveHref (URL d) url) \<and>
              new_calls x x' = [XOpen meth (fixUrlForBuggyXhr (resolveHref (URL d) url)) async user password] \<and>
              (isAllowedHttpMethod meth \<longrightarrow>
                 res = Inr () \<and> x_settings x' = Some (meth, fixUrlForBuggyXhr (resolveHref (URL d) url)))) \<and>
         (is_letter c \<longrightarrow>
            fixUrlForBuggyXhr (''file:///'' @ c # CHR '':'' # rest) = ''file://'' @ c # CHR '':'' # rest) \<and>
         fixUrlForBuggyXhr ''file:///C:/test.html'' = ''file://C:/test.html''"
proof -
  have "case xhr_open resolveHref win x meth url async user password of
          (res, x') \<Rightarrow>
            lastUrl x' = fixUrlForBuggyXhr (resolveHref (URL d) url) \<and>
            new_calls x x' = [XOpen meth (fixUrlForBuggyXhr (resolveHref (URL d) url)) async user password] \<and>
            (isAllowedHttpMethod meth \<longrightarrow>
               res = Inr () \<and> x_settings x' = Some (meth, fixUrlForBuggyXhr (resolveHref (URL d) url)))"
    using assms by (simp add: xhr_open_def underlying_open_def Let_def new_calls_def)
  with fixUrlForBuggyXhr_drive[of c rest] fixUrlForBuggyXhr_example show ?thesis by blast
qed

theorem xhr_open_fixes_url_witness:
  "w_document (example_window [] []) \<noteq> None \<and>
   xhr_open (\<lambda>base url. url) (example_window [] []) new_xhr ''GET'' ''file:///C:/test.html'' (Bool True) Undefined Undefined =
     (Inr (),
      new_xhr\<lparr>x_readyState := OPENED, x_settings := Some (''GET'', ''file://C:/test.html''),
              x_calls := [XOpen ''GET'' ''file://C:/test.html'' (Bool True) Undefined Undefined],
              lastUrl := ''file://C:/test.html''\<rparr>) \<and>
   is_letter CHR ''C''"
proof -
  have d: "w_document (example_window [] []) =
      Some \<lparr>body = Some ''<p>x</p>'', has_close = True, d_listeners = [],
            readyState = ''loading'', URL = ''http://example.org/''\<rparr>"
    by (simp add: example_window_def)
  have m: "isAllowedHttpMethod ''GET''"
    by (simp add: isAllowedHttpMethod_def forbiddenRequestMethods_def)
  have l: "is_letter CHR ''C''" by (simp add: is_letter_def)
  from xhr_open_fixes_url[OF d, where resolveHref = "\<lambda>base url. url" and x = new_xhr
      and meth = "''GET''" and url = "''file:///C:/test.html''" and async = "Bool True"
      and user = Undefined and password = Undefined and c = "CHR ''C''" and rest = "''/test.html''"] m l
  show ?thesis
    by (auto simp: xhr_open_def underlying_open_def Let_def new_xhr_def d UNSENT_def OPENED_def
        fixUrlForBuggyXhr_example)
qed

lemma inject_cookie_none:
  "cookieStr = None \<or> cookieStr = Some [] \<Longrightarrow> inject_cookie x cookieStr = (Inr (), x)"
  by (auto simp: inject_cookie_def)

lemma underlying_send_frame:
  "underlying_send x data = (res, x') \<Longrightarrow>
   x_headers x' = x_headers x \<and> x_disableHeaderCheck x' = x_disableHeaderCheck x \<and>
   (\<exists>t. x_calls x' = x_calls x @ XSend data # t \<and> (\<forall>c\<in>set t. \<exists>m u hs. c = Transmit m u hs data))"
  by (auto simp: underlying_send_def Let_def split: if_splits option.splits)

lemma inject_cookie_calls:
  "inject_cookie x cookieStr = (res, x') \<Longrightarrow>
   (\<exists>b. XSetDisableHeaderCheck b \<in> set (new_calls x x')) \<Longrightarrow> \<exists>s. cookieStr = Some s \<and> s \<noteq> []"
  by (cases cookieStr) (auto simp: inject_cookie_def new_calls_def split: if_splits)

text \<open>
  Claim C10. When the jar has no cookie string for \<open>lastUrl\<close> (nothing, or the empty
  string), \<^verbatim>\<open>send\<close> leaves the request headers and the header-check switch as they were and
  calls neither \<^verbatim>\<open>setDisableHeaderCheck\<close> nor \<^verbatim>\<open>setRequestHeader\<close>. Whenever \<^verbatim>\<open>send\<close> does call
  \<^verbatim>\<open>setDisableHeaderCheck\<close>, the jar gave a cookie string that is not empty.
\<close>

theorem xhr_send_without_cookie:
  assumes "xhr_send getCookieStringSync win cookieJar x data = (res, x')"
  shows "((getCookieStringSync cookieJar (lastUrl x) = None \<or> getCookieStringSync cookieJar (lastUrl x) = Some []) \<longrightarrow>
            x_headers x' = x_headers x \<and> x_disableHeaderCheck x' = x_disableHeaderCheck x \<and>
            (\<forall>b. XSetDisableHeaderCheck b \<notin> set (new_calls x x')) \<and>
            (\<forall>header v. XSetRequestHeader header v \<notin> set (new_calls x x'))) \<and>
         ((\<exists>b. XSetDisableHeaderCheck b \<in> set (new_calls x x')) \<longrightarrow>
            (\<exists>s. getCookieStringSync cookieJar (lastUrl x) = Some s \<and> s \<noteq> []))"
proof (cases "w_document win")
  case None
  with assms show ?thesis by (simp add: xhr_send_def new_calls_def)
next
  case (Some d)
  obtain r1 x1 where i: "inject_cookie x (getCookieStringSync cookieJar (lastUrl x)) = (r1, x1)"
    by (cases "inject_cookie x (getCookieStringSync cookieJar (lastUrl x))")
  have 1: "x_headers x' = x_headers x \<and> x_disableHeaderCheck x' = x_disableHeaderCheck x \<and>
            (\<forall>b. XSetDisableHeaderCheck b \<notin> set (new_calls x x')) \<and>
            (\<forall>header v. XSetRequestHeader header v \<notin> set (new_calls x x'))"
    if e: "getCookieStringSync cookieJar (lastUrl x) = None \<or> getCookieStringSync cookieJar (lastUrl x) = Some []"
  proof -
    from inject_cookie_none[OF e] assms Some
    have s: "underlying_send (addEventListener_setReceivedCookies x) data = (res, x')"
      by (simp add: xhr_send_def)
    from underlying_send_frame[OF s] show ?thesis
      by (auto simp: addEventListener_setReceivedCookies_def new_calls_def)
  qed
  have 2: "\<exists>s. getCookieStringSync cookieJar (lastUrl x) = Some s \<and> s \<noteq> []"
    if b: "\<exists>b. XSetDisableHeaderCheck b \<in> set (new_calls x x')"
  proof (rule ccontr)
    assume "\<not> (\<exists>s. getCookieStringSync cookieJar (lastUrl x) = Some s \<and> s \<noteq> [])"
    then have "getCookieStringSync cookieJar (lastUrl x) = None \<or> getCookieStringSync cookieJar (lastUrl x) = Some []"
      by (cases "getCookieStringSync cookieJar (lastUrl x)") auto
    from 1[OF this] b show False by blast
  qed
  from 1 2 show ?thesis by blast
qed

lemma opened_xhr_eq:
  "opened_xhr =
     new_xhr\<lparr>x_readyState := OPENED, x_settings := Some (''GET'', ''http://example.org/a''),
             x_calls := [XOpen ''GET'' ''http://example.org/a'' (Bool True) Undefined Undefined],
             lastUrl := ''http://example.org/a''\<rparr>"
  by (simp add: opened_xhr_def xhr_open_def underlying_open_def Let_def example_window_def new_xhr_def
      isAllowedHttpMethod_def forbiddenRequestMethods_def fixUrlForBuggyXhr_def UNSENT_def OPENED_def)

lemma cookie_is_forbidden: "\<not> isAllowedHttpHeader (x\<lparr>x_disableHeaderCheck := False\<rparr>) ''cookie''"
  by (simp add: isAllowedHttpHeader_def forbiddenRequestHeaders_def toLowerCase_def)

lemma xhr_send_cookie:
  assumes doc: "w_document win = Some d"
    and cookie: "getCookieStringSync cookieJar (lastUrl x) = Some s" "s \<noteq> []"
    and opened: "x_readyState x = OPENED" "\<not> x_sendFlag x" "x_settings x = Some (meth, url)"
  shows "xhr_send getCookieStringSync win cookieJar x data =
           (Inr (),
            x\<lparr>x_headers := put_header ''cookie'' s (x_headers x),
              x_disableHeaderCheck := False,
              x_cookie_listeners := Suc (x_cookie_listeners x),
              x_sendFlag := True,
              x_calls := x_calls x @
                [XSetDisableHeaderCheck True, XSetRequestHeader ''cookie'' s, XSetDisableHeaderCheck False,
                 XAddEventListener ''readystatechange'', XSend data,
                 Transmit meth url (put_header ''cookie'' s (x_headers x)) data]\<rparr>)"
  using assms
  by (simp add: xhr_send_def inject_cookie_def setRequestHeader_def setDisableHeaderCheck_def
      isAllowedHttpHeader_def Let_def addEventListener_setReceivedCookies_def underlying_send_def)

text \<open>
  Claim C6 says that \<^verbatim>\<open>send\<close> sets the jar's cookie string as the cookie header of every
  request. With a jar that answers with the empty string, a request that is open is sent
  without any cookie header: the calls are \<^verbatim>\<open>addEventListener\<close> and \<^verbatim>\<open>send\<close> only.
\<close>

theorem xhr_send_empty_cookie_sets_no_header:
  "fst (xhr_send no_cookies (example_window [] []) [] opened_xhr Null) = Inr () \<and>
   no_cookies [] (lastUrl opened_xhr) = Some [] \<and>
   map_of (x_headers (snd (xhr_send no_cookies (example_window [] []) [] opened_xhr Null))) ''cookie'' = None \<and>
   new_calls opened_xhr (snd (xhr_send no_cookies (example_window [] []) [] opened_xhr Null)) =
     [XAddEventListener ''readystatechange'', XSend Null, Transmit ''GET'' ''http://example.org/a'' [] Null]"
  by (simp add: opened_xhr_eq xhr_send_def example_window_def no_cookies_def inject_cookie_def
      addEventListener_setReceivedCookies_def underlying_send_def Let_def new_xhr_def new_calls_def
      OPENED_def)

lemma xhr_open_new:
  assumes "w_document win = Some d" and "isAllowedHttpMethod meth"
  shows "xhr_open resolveHref win new_xhr meth url async user password =
           (Inr (),
            new_xhr\<lparr>x_readyState := OPENED,
                    x_settings := Some (meth, fixUrlForBuggyXhr (resolveHref (URL d) url)),
                    x_calls := [XOpen meth (fixUrlForBuggyXhr (resolveHref (URL d) url)) async user password],
                    lastUrl := fixUrlForBuggyXhr (resolveHref (URL d) url)\<rparr>)"
  using assms by (simp add: xhr_open_def underlying_open_def Let_def new_xhr_def)

lemma xhr_send_opened:
  assumes doc: "w_document win = Some d"
    and opened: "x_readyState x = OPENED" "\<not> x_sendFlag x" "x_settings x = Some (meth, url)"
  shows "\<exists>x'. xhr_send getCookieStringSync win cookieJar x data = (Inr (), x') \<and>
              x_cookie_listeners x' = Suc (x_cookie_listeners x) \<and> lastUrl x' = lastUrl x \<and>
              \<not> x_errorFlag x' = (\<not> x_errorFlag x)"
proof (cases "\<exists>s. getCookieStringSync cookieJar (lastUrl x) = Some s \<and> s \<noteq> []")
  case True
  then obtain s where "getCookieStringSync cookieJar (lastUrl x) = Some s" "s \<noteq> []" by blast
  from xhr_send_cookie[where getCookieStringSync = getCookieStringSync and cookieJar = cookieJar
      and x = x and s = s and data = data, OF doc this opened] show ?thesis by simp
next
  case False
  then have "getCookieStringSync cookieJar (lastUrl x) = None \<or> getCookieStringSync cookieJar (lastUrl x) = Some []"
    by (cases "getCookieStringSync cookieJar (lastUrl x)") auto
  from inject_cookie_none[OF this] doc opened show ?thesis
    by (simp add: xhr_send_def addEventListener_setReceivedCookies_def underlying_send_def Let_def)
qed

lemma headers_received_one:
  assumes "x_cookie_listeners x = Suc 0" and "\<not> x_errorFlag x"
    and "received = HStr cookie \<and> cookie \<noteq> [] \<or> received = HArr [cookie]"
  shows "fst (headers_received [(''set-cookie'', received)] cookieJar x) =
           setCookieSync cookieJar cookie (lastUrl x)"
  using assms
  by (auto simp: headers_received_def setReceivedCookies_def getResponseHeader_def Let_def
      HEADERS_RECEIVED_def OPENED_def toLowerCase_def)

lemma second_request_sends_cookie:
  assumes doc: "w_document win = Some d"
    and a: "(received = HStr ''a=1'' \<or> received = HArr [''a=1'']) \<and>
            isAllowedHttpMethod method1 \<and> isAllowedHttpMethod method2 \<and>
            getCookieStringSync
              (setCookieSync cookieJar ''a=1'' (fixUrlForBuggyXhr (resolveHref (URL d) url)))
              (fixUrlForBuggyXhr (resolveHref (URL d) url)) = Some ''a=1''"
  shows "\<exists>y. second_request resolveHref getCookieStringSync win cookieJar url received method1 data1 method2 data =
              (setCookieSync cookieJar ''a=1'' (fixUrlForBuggyXhr (resolveHref (URL d) url)), Inr (), y) \<and>
            last (x_calls y) =
              Transmit method2 (fixUrlForBuggyXhr (resolveHref (URL d) url)) [(''cookie'', ''a=1'')] data"
proof -
  let ?u = "fixUrlForBuggyXhr (resolveHref (URL d) url)"
  define x1 where "x1 = new_xhr\<lparr>x_readyState := OPENED, x_settings := Some (method1, ?u),
      x_calls := [XOpen method1 ?u (Bool True) Undefined Undefined], lastUrl := ?u\<rparr>"
  define y1 where "y1 = new_xhr\<lparr>x_readyState := OPENED, x_settings := Some (method2, ?u),
      x_calls := [XOpen method2 ?u (Bool True) Undefined Undefined], lastUrl := ?u\<rparr>"
  from a xhr_open_new[OF doc] have o1: "xhr_open resolveHref win new_xhr method1 url (Bool True) Undefined Undefined = (Inr (), x1)"
    and o2: "xhr_open resolveHref win new_xhr method2 url (Bool True) Undefined Undefined = (Inr (), y1)"
    by (simp_all add: x1_def y1_def)
  have "x_readyState x1 = OPENED" "\<not> x_sendFlag x1" "x_settings x1 = Some (method1, ?u)"
    by (simp_all add: x1_def new_xhr_def)
  from xhr_send_opened[OF doc this, of getCookieStringSync cookieJar data1] obtain x2 where
    s1: "xhr_send getCookieStringSync win cookieJar x1 data1 = (Inr (), x2)"
    and x2: "x_cookie_listeners x2 = Suc (x_cookie_listeners x1)" "lastUrl x2 = lastUrl x1"
      "\<not> x_errorFlag x2 = (\<not> x_errorFlag x1)" by blast
  from x2 have k: "x_cookie_listeners x2 = Suc 0" "\<not> x_errorFlag x2" "lastUrl x2 = ?u"
    by (simp_all add: x1_def new_xhr_def)
  from a have r: "received = HStr ''a=1'' \<and> ''a=1'' \<noteq> [] \<or> received = HArr [''a=1'']" by auto
  from headers_received_one[OF k(1,2) r, of cookieJar] k(3)
  have j: "fst (headers_received [(''set-cookie'', received)] cookieJar x2) = setCookieSync cookieJar ''a=1'' ?u"
    by simp
  have y: "x_readyState y1 = OPENED" "\<not> x_sendFlag y1" "x_settings y1 = Some (method2, ?u)"
     "lastUrl y1 = ?u" "x_headers y1 = []"
    by (simp_all add: y1_def new_xhr_def)
  from a y(4) have c: "getCookieStringSync (setCookieSync cookieJar ''a=1'' ?u) (lastUrl y1) = Some ''a=1''" "''a=1'' \<noteq> []"
    by simp_all
  note s2 = xhr_send_cookie[where getCookieStringSync = getCookieStringSync
      and cookieJar = "setCookieSync cookieJar ''a=1'' ?u" and x = y1 and s = "''a=1''" and data = data,
      OF doc c y(1,2,3)]
  show ?thesis
    by (cases "headers_received [(''set-cookie'', received)] cookieJar x2")
       (use j s2 y(5) in \<open>simp add: second_request_def o1 o2 s1\<close>)
qed

lemma xhr_send_forwarded:
  assumes doc: "w_document win = Some d"
    and cookie: "getCookieStringSync cookieJar (lastUrl x) = Some s" "s \<noteq> []"
    and run: "xhr_send getCookieStringSync win cookieJar x data = (res, x')"
    and fwd: "XSend data \<in> set (new_calls x x')"
  shows "x_headers x' = put_header ''cookie'' s (x_headers x) \<and>
         (\<exists>t. new_calls x x' =
            [XSetDisableHeaderCheck True, XSetRequestHeader ''cookie'' s, XSetDisableHeaderCheck False,
             XAddEventListener ''readystatechange'', XSend data] @ t) \<and>
         \<not> x_disableHeaderCheck x'"
proof -
  obtain r1 x1 where h: "setRequestHeader (setDisableHeaderCheck x True) ''cookie'' s = (r1, x1)"
    by (cases "setRequestHeader (setDisableHeaderCheck x True) ''cookie'' s")
  show ?thesis
  proof (cases r1)
    case (Inl e)
    with h doc cookie run have "x' = x1" by (simp add: xhr_send_def inject_cookie_def)
    with h fwd show ?thesis
      by (auto simp: setRequestHeader_def setDisableHeaderCheck_def Let_def new_calls_def split: if_splits)
  next
    case (Inr u)
    with h have x1: "x1 = (setDisableHeaderCheck x True)
        \<lparr>x_calls := x_calls x @ [XSetDisableHeaderCheck True, XSetRequestHeader ''cookie'' s],
          x_headers := put_header ''cookie'' s (x_headers x)\<rparr>"
      by (auto simp: setRequestHeader_def setDisableHeaderCheck_def Let_def isAllowedHttpHeader_def
          split: if_splits)
    from Inr h doc cookie run
    have s: "underlying_send (addEventListener_setReceivedCookies (setDisableHeaderCheck x1 False)) data = (res, x')"
      by (simp add: xhr_send_def inject_cookie_def)
    from underlying_send_frame[OF s] show ?thesis
      by (auto simp: x1 addEventListener_setReceivedCookies_def setDisableHeaderCheck_def new_calls_def)
  qed
qed

text \<open>
  Claim C6, amended. In a window with a document, for every request for which the jar has
  a cookie string that is not empty: whenever \<^verbatim>\<open>send\<close> gets to call the underlying \<^verbatim>\<open>send\<close>,
  it has, immediately before and in this order, switched the header check off, set the
  header \<^verbatim>\<open>cookie\<close> to that string (a forbidden header, which the check would refuse),
  switched the check on again and registered its listener; and on a request that is open
  and not yet sent it does get there, and the request goes out with the cookie header.
  Consequently, in the scenario \<open>second_request\<close>: when the first response carries
  \<^verbatim>\<open>set-cookie: a=1\<close> and the jar, having stored it under the request's URL, answers
  \<^verbatim>\<open>a=1\<close> for that URL, the second request to the same URL goes out with the headers
  \<^verbatim>\<open>cookie: a=1\<close>.
\<close>

theorem xhr_send_injects_cookie:
  assumes doc: "w_document win = Some d"
  shows "(\<forall>x s res x'.
            getCookieStringSync cookieJar (lastUrl x) = Some s \<and> s \<noteq> [] \<and>
            xhr_send getCookieStringSync win cookieJar x data = (res, x') \<longrightarrow>
            (XSend data \<in> set (new_calls x x') \<longrightarrow>
               x_headers x' = put_header ''cookie'' s (x_headers x) \<and>
               (\<exists>t. new_calls x x' =
                  [XSetDisableHeaderCheck True, XSetRequestHeader ''cookie'' s, XSetDisableHeaderCheck False,
                   XAddEventListener ''readystatechange'', XSend data] @ t) \<and>
               \<not> x_disableHeaderCheck x') \<and>
            (\<forall>meth url.
               x_readyState x = OPENED \<and> \<not> x_sendFlag x \<and> x_settings x = Some (meth, url) \<longrightarrow>
               res = Inr () \<and>
               new_calls x x' =
                 [XSetDisableHeaderCheck True, XSetRequestHeader ''cookie'' s, XSetDisableHeaderCheck False,
                  XAddEventListener ''readystatechange'', XSend data,
                  Transmit meth url (put_header ''cookie'' s (x_headers x)) data])) \<and>
         ''cookie'' \<in> set forbiddenRequestHeaders \<and>
         (\<forall>received method1 data1 method2 url.
            (received = HStr ''a=1'' \<or> received = HArr [''a=1'']) \<and>
            isAllowedHttpMethod method1 \<and> isAllowedHttpMethod method2 \<and>
            getCookieStringSync
              (setCookieSync cookieJar ''a=1'' (fixUrlForBuggyXhr (resolveHref (URL d) url)))
              (fixUrlForBuggyXhr (resolveHref (URL d) url)) = Some ''a=1'' \<longrightarrow>
            (\<exists>y. second_request resolveHref getCookieStringSync win cookieJar url received method1 data1 method2 data =
                   (setCookieSync cookieJar ''a=1'' (fixUrlForBuggyXhr (resolveHref (URL d) url)), Inr (), y) \<and>
                 last (x_calls y) =
                   Transmit method2 (fixUrlForBuggyXhr (resolveHref (URL d) url)) [(''cookie'', ''a=1'')] data))"
proof -
  have 1: "(XSend data \<in> set (new_calls x x') \<longrightarrow>
               x_headers x' = put_header ''cookie'' s (x_headers x) \<and>
               (\<exists>t. new_calls x x' =
                  [XSetDisableHeaderCheck True, XSetRequestHeader ''cookie'' s, XSetDisableHeaderCheck False,
                   XAddEventListener ''readystatechange'', XSend data] @ t) \<and>
               \<not> x_disableHeaderCheck x') \<and>
            (\<forall>meth url.
               x_readyState x = OPENED \<and> \<not> x_sendFlag x \<and> x_settings x = Some (meth, url) \<longrightarrow>
               res = Inr () \<and>
               new_calls x x' =
                 [XSetDisableHeaderCheck True, XSetRequestHeader ''cookie'' s, XSetDisableHeaderCheck False,
                  XAddEventListener ''readystatechange'', XSend data,
                  Transmit meth url (put_header ''cookie'' s (x_headers x)) data])"
    if a: "getCookieStringSync cookieJar (lastUrl x) = Some s \<and> s \<noteq> [] \<and>
            xhr_send getCookieStringSync win cookieJar x data = (res, x')" for x :: xhr and s res x'
  proof (intro conjI impI allI)
    assume f: "XSend data \<in> set (new_calls x x')"
    from a have c: "getCookieStringSync cookieJar (lastUrl x) = Some s" "s \<noteq> []"
      and r: "xhr_send getCookieStringSync win cookieJar x data = (res, x')" by simp_all
    note t = xhr_send_forwarded[where getCookieStringSync = getCookieStringSync and cookieJar = cookieJar
        and x = x and s = s and data = data, OF doc c r f]
    from t show "x_headers x' = put_header ''cookie'' s (x_headers x)" by simp
    from t show "\<exists>t. new_calls x x' =
                  [XSetDisableHeaderCheck True, XSetRequestHeader ''cookie'' s, XSetDisableHeaderCheck False,
                   XAddEventListener ''readystatechange'', XSend data] @ t" by simp
    from t show "\<not> x_disableHeaderCheck x'" by simp
  next
    fix meth url
    assume o: "x_readyState x = OPENED \<and> \<not> x_sendFlag x \<and> x_settings x = Some (meth, url)"
    from a have c: "getCookieStringSync cookieJar (lastUrl x) = Some s" "s \<noteq> []"
      and r: "xhr_send getCookieStringSync win cookieJar x data = (res, x')" by simp_all
    from o have o': "x_readyState x = OPENED" "\<not> x_sendFlag x" "x_settings x = Some (meth, url)" by simp_all
    note t = xhr_send_cookie[where getCookieStringSync = getCookieStringSync and cookieJar = cookieJar
        and x = x and s = s and data = data and meth = meth and url = url, OF doc c o']
    from t r show "res = Inr ()" by simp
    from t r show "new_calls x x' =
                 [XSetDisableHeaderCheck True, XSetRequestHeader ''cookie'' s, XSetDisableHeaderCheck False,
                  XAddEventListener ''readystatechange'', XSend data,
                  Transmit meth url (put_header ''cookie'' s (x_headers x)) data]"
      by (auto simp: new_calls_def)
  qed
  have 2: "''cookie'' \<in> set forbiddenRequestHeaders" by (simp add: forbiddenRequestHeaders_def)
  from 1 2 second_request_sends_cookie[OF doc, where getCookieStringSync = getCookieStringSync
      and cookieJar = cookieJar and resolveHref = resolveHref and data = data]
  show ?thesis by blast
qed

theorem xhr_send_without_cookie_witness:
  "no_cookies [] (lastUrl opened_xhr) = Some [] \<and>
   x_headers (snd (xhr_send no_cookies (example_window [] []) [] opened_xhr (Str ''body''))) = x_headers opened_xhr \<and>
   x_disableHeaderCheck (snd (xhr_send no_cookies (example_window [] []) [] opened_xhr (Str ''body''))) =
     x_disableHeaderCheck opened_xhr \<and>
   (\<forall>b. XSetDisableHeaderCheck b \<notin>
          set (new_calls opened_xhr (snd (xhr_send no_cookies (example_window [] []) [] opened_xhr (Str ''body''))))) \<and>
   (\<forall>header v. XSetRequestHeader header v \<notin>
          set (new_calls opened_xhr (snd (xhr_send no_cookies (example_window [] []) [] opened_xhr (Str ''body'')))))"
proof -
  have e: "no_cookies [] (lastUrl opened_xhr) = Some []" by (simp add: no_cookies_def)
  have "xhr_send no_cookies (example_window [] []) [] opened_xhr (Str ''body'') =
          (fst (xhr_send no_cookies (example_window [] []) [] opened_xhr (Str ''body'')),
           snd (xhr_send no_cookies (example_window [] []) [] opened_xhr (Str ''body'')))"
    by simp
  from xhr_send_without_cookie[OF this] e show ?thesis by blast
qed

theorem xhr_send_injects_cookie_witness:
  "w_document (example_window [] []) =
     Some \<lparr>body = Some ''<p>x</p>'', has_close = True, d_listeners = [],
           readyState = ''loading'', URL = ''http://example.org/''\<rparr> \<and>
   last_cookie [(''a=1'', ''http://example.org/a'')] (lastUrl opened_xhr) = Some ''a=1'' \<and>
   x_readyState opened_xhr = OPENED \<and> \<not> x_sendFlag opened_xhr \<and>
   x_settings opened_xhr = Some (''GET'', ''http://example.org/a'') \<and>
   fst (xhr_send last_cookie (example_window [] []) [(''a=1'', ''http://example.org/a'')] opened_xhr Null) = Inr () \<and>
   new_calls opened_xhr
     (snd (xhr_send last_cookie (example_window [] []) [(''a=1'', ''http://example.org/a'')] opened_xhr Null)) =
     [XSetDisableHeaderCheck True, XSetRequestHeader ''cookie'' ''a=1'', XSetDisableHeaderCheck False,
      XAddEventListener ''readystatechange'', XSend Null,
      Transmit ''GET'' ''http://example.org/a'' [(''cookie'', ''a=1'')] Null] \<and>
   x_headers
     (snd (xhr_send last_cookie (example_window [] []) [(''a=1'', ''http://example.org/a'')] opened_xhr Null)) =
     [(''cookie'', ''a=1'')] \<and>
   isAllowedHttpMethod ''GET'' \<and> isAllowedHttpMethod ''POST'' \<and>
   (\<exists>y. second_request (\<lambda>base url. url) last_cookie (example_window [] []) [] ''http://example.org/a''
          (HArr [''a=1'']) ''POST'' (Str ''x=1'') ''GET'' Null =
          ([(''a=1'', ''http://example.org/a'')], Inr (), y) \<and>
        last (x_calls y) = Transmit ''GET'' ''http://example.org/a'' [(''cookie'', ''a=1'')] Null)"
proof -
  let ?r = "xhr_send last_cookie (example_window [] []) [(''a=1'', ''http://example.org/a'')] opened_xhr Null"
  have d: "w_document (example_window [] []) =
     Some \<lparr>body = Some ''<p>x</p>'', has_close = True, d_listeners = [],
           readyState = ''loading'', URL = ''http://example.org/''\<rparr>"
    by (simp add: example_window_def)
  have c: "last_cookie [(''a=1'', ''http://example.org/a'')] (lastUrl opened_xhr) = Some ''a=1''"
    by (simp add: last_cookie_def opened_xhr_eq)
  have o: "x_readyState opened_xhr = OPENED" "\<not> x_sendFlag opened_xhr"
    "x_settings opened_xhr = Some (''GET'', ''http://example.org/a'')" "x_headers opened_xhr = []"
    by (simp_all add: opened_xhr_eq new_xhr_def)
  have m: "isAllowedHttpMethod ''GET''" "isAllowedHttpMethod ''POST''"
    by (simp_all add: isAllowedHttpMethod_def forbiddenRequestMethods_def)
  have f: "fixUrlForBuggyXhr ''http://example.org/a'' = ''http://example.org/a''"
    by (simp add: fixUrlForBuggyXhr_def)
  have g: "last_cookie (setCookieSync [] ''a=1'' ''http://example.org/a'') ''http://example.org/a'' = Some ''a=1''"
    by (simp add: last_cookie_def setCookieSync_def)
  have e: "?r = (fst ?r, snd ?r)" by simp
  note t = xhr_send_injects_cookie[OF d, where getCookieStringSync = last_cookie and data = Null]
  from t[where cookieJar = "[(''a=1'', ''http://example.org/a'')]", THEN conjunct1]
  have "fst ?r = Inr () \<and>
        new_calls opened_xhr (snd ?r) =
          [XSetDisableHeaderCheck True, XSetRequestHeader ''cookie'' ''a=1'', XSetDisableHeaderCheck False,
           XAddEventListener ''readystatechange'', XSend Null,
           Transmit ''GET'' ''http://example.org/a'' (put_header ''cookie'' ''a=1'' (x_headers opened_xhr)) Null] \<and>
        (XSend Null \<in> set (new_calls opened_xhr (snd ?r)) \<longrightarrow>
           x_headers (snd ?r) = put_header ''cookie'' ''a=1'' (x_headers opened_xhr))"
    using c o(1-3) e by blast
  then have 1: "fst ?r = Inr ()"
    "new_calls opened_xhr (snd ?r) =
          [XSetDisableHeaderCheck True, XSetRequestHeader ''cookie'' ''a=1'', XSetDisableHeaderCheck False,
           XAddEventListener ''readystatechange'', XSend Null,
           Transmit ''GET'' ''http://example.org/a'' [(''cookie'', ''a=1'')] Null]"
    "x_headers (snd ?r) = [(''cookie'', ''a=1'')]"
    by (simp_all add: o(4))
  from t[where cookieJar = "[]" and resolveHref = "\<lambda>base url. url", THEN conjunct2, THEN conjunct2, rule_format,
      where received = "HArr [''a=1'']" and ?method1.0 = "''POST''" and ?method2.0 = "''GET''"
        and url = "''http://example.org/a''" and ?data1.0 = "Str ''x=1''"] m f g
  have 2: "\<exists>y. second_request (\<lambda>base url. url) last_cookie (example_window [] []) [] ''http://example.org/a''
          (HArr [''a=1'']) ''POST'' (Str ''x=1'') ''GET'' Null =
          ([(''a=1'', ''http://example.org/a'')], Inr (), y) \<and>
        last (x_calls y) = Transmit ''GET'' ''http://example.org/a'' [(''cookie'', ''a=1'')] Null"
    by (simp add: setCookieSync_def)
  from d c o(1-3) 1 m 2 show ?thesis by blast
qed

section \<open>Properties of the computed style\<close>

text \<open>
  Each loop of \<^verbatim>\<open>getComputedStyle\<close> is a fold of \<^verbatim>\<open>setProperty\<close> over the writes the
  specification lists for it, whatever \<^verbatim>\<open>setProperty\<close> does.
\<close>

lemma setProperties_writes:
  "setProperties setProperty s cs = foldl (apply_write setProperty) cs (style_writes s)"
  by (simp add: setProperties_def style_writes_def foldl_map apply_write_def)

lemma selectors_loop_eq:
  "selectors_loop setProperty el r selectors matched cs =
     (if \<not> matched \<and> list_ex (\<lambda>selector. selector \<noteq> [] \<and> selector \<noteq> '','' \<and> matchesDontThrow el selector) selectors
      then setProperties setProperty (style r) cs else cs)"
  by (induction selectors arbitrary: matched cs) auto

lemma setPropertiesFromRule_writes:
  "setPropertiesFromRule setProperty el cs r = foldl (apply_write setProperty) cs (rule_writes el r)"
  by (simp add: setPropertiesFromRule_def rule_writes_def rule_matches_def selectors_loop_eq
      setProperties_writes split: option.splits)

lemma inner_rules_writes:
  "foldl (setPropertiesFromRule setProperty el) cs inner =
     foldl (apply_write setProperty) cs (concat (map (rule_writes el) inner))"
  by (induction inner arbitrary: cs) (simp_all add: setPropertiesFromRule_writes)

lemma readStylesFromStyleSheet_writes:
  "readStylesFromStyleSheet setProperty el cs sh =
     (if list_all readable_rule sh then Inr (foldl (apply_write setProperty) cs (sheet_writes el sh))
      else Inl TypeError)"
proof (induction sh arbitrary: cs)
  case Nil
  show ?case by (simp add: sheet_writes_def)
next
  case (Cons r rules)
  have s: "sheet_writes el (r # rules) =
      (case media r of
         None \<Rightarrow> rule_writes el r
       | Some m \<Rightarrow> if ''screen'' \<in> set m
                   then concat (map (rule_writes el) (case cssRules r of None \<Rightarrow> [] | Some inner \<Rightarrow> inner))
                   else []) @ sheet_writes el rules"
    by (simp add: sheet_writes_def)
  show ?case
    unfolding s
    by (auto simp: Cons.IH readable_rule_def setPropertiesFromRule_writes inner_rules_writes
        split: option.splits)
qed

lemma readStyleSheets_writes:
  "readStyleSheets setProperty el cs sheets =
     (if readable_sheets sheets then Inr (foldl (apply_write setProperty) cs (concat (map (sheet_writes el) sheets)))
      else Inl TypeError)"
  by (induction sheets arbitrary: cs) (auto simp: readable_sheets_def readStylesFromStyleSheet_writes)

lemma getComputedStyle_writes:
  "getComputedStyle setProperty defaultStyleSheet el cs =
     (if readable_sheets (defaultStyleSheet # styleSheets el)
      then Inr (foldl (apply_write setProperty) cs (computed_writes defaultStyleSheet el))
      else Inl TypeError)"
  by (auto simp: getComputedStyle_def readStylesFromStyleSheet_writes readStyleSheets_writes
      computed_writes_def setProperties_writes readable_sheets_def)

lemma split_example: "split_cssSelectorSplitRE ''div, p'' = ['''', ''div'', '','', '' p'', '''']"
  by (simp add: split_cssSelectorSplitRE_def)

lemma blue_div_writes:
  "computed_writes defaultStyleSheet blue_div =
     (sheet_writes blue_div defaultStyleSheet @ [(''color'', ''red'', [])]) @ [(''color'', ''blue'', [])]"
  by (simp add: computed_writes_def blue_div_def sheet_writes_def red_rule_def rule_writes_def
      rule_matches_def split_example matchesDontThrow_def style_writes_def getPropertyValue_def
      getPropertyPriority_def)

lemma split_div: "split_cssSelectorSplitRE ''div'' = ['''', ''div'', '''']"
  by (simp add: split_cssSelectorSplitRE_def)

lemma banana_div_writes:
  "computed_writes [] banana_div = [(''width'', ''10px'', []), (''width'', ''banana'', [])]"
  by (simp add: computed_writes_def banana_div_def sheet_writes_def rule_writes_def
      rule_matches_def split_div matchesDontThrow_def style_writes_def getPropertyValue_def
      getPropertyPriority_def)

lemma foldl_frame:
  "(\<And>cs w'. w' \<in> set ws \<Longrightarrow> read (f cs w') = read cs) \<Longrightarrow> read (foldl f cs ws) = read cs"
  by (induction ws arbitrary: cs) simp_all

text \<open>
  Claim C5 says that a later write to a property name overrides an earlier one. What a
  write leaves in the result is decided by \<^verbatim>\<open>setProperty\<close> of the result block, and the
  package's drops a value it cannot parse: under the sheet
  \<^verbatim>\<open>div { width: 10px } div { width: banana }\<close> the writes to \<^verbatim>\<open>width\<close> are \<^verbatim>\<open>10px\<close>, then
  \<^verbatim>\<open>banana\<close>, and the computed width is \<^verbatim>\<open>10px\<close>.
\<close>

theorem getComputedStyle_later_write_dropped:
  "computed_writes [] banana_div = [(''width'', ''10px'', []), (''width'', ''banana'', [])] \<and>
   result_property (getComputedStyle (setProperty_parsing example_parse) [] banana_div Map.empty) ''width'' =
     Some (''10px'', [])"
  by (simp add: banana_div_writes getComputedStyle_writes readable_sheets_def banana_div_def
      readable_rule_def result_property_def apply_write_def setProperty_parsing_def example_parse_def
      computed_writes_def sheet_writes_def rule_writes_def
      rule_matches_def split_div matchesDontThrow_def style_writes_def getPropertyValue_def
      getPropertyPriority_def)

text \<open>
  Claim C5, amended. \<^verbatim>\<open>getComputedStyle\<close> calls \<^verbatim>\<open>setProperty\<close> of the result block for
  exactly the writes of \<open>computed_writes\<close>, in that order: the declarations of the matching
  rules of the default sheet (of a rule under media only when \<^verbatim>\<open>screen\<close> is among them, of a
  rule without media always), then those of the document's sheets in document order,
  then the inline declarations. It raises a TypeError instead when a sheet has a rule for
  \<^verbatim>\<open>screen\<close> without inner rules. What the result shows (\<open>read\<close>, any reading of the
  block) is what a write \<open>w\<close> makes it show, whenever \<^verbatim>\<open>setProperty\<close> settles that reading
  for \<open>w\<close> and the writes after \<open>w\<close> leave it alone. In particular, for the element
  \<open>blue_div\<close>, a \<^verbatim>\<open>div\<close> with the inline style \<^verbatim>\<open>color: blue\<close> under the sheet
  \<^verbatim>\<open>div, p { color: red }\<close>, the last two writes are \<^verbatim>\<open>color: red\<close> and \<^verbatim>\<open>color: blue\<close>, and the
  result shows what \<^verbatim>\<open>setProperty\<close> makes of \<^verbatim>\<open>color: blue\<close>, whatever the default sheet says.
\<close>

theorem getComputedStyle_order:
  "getComputedStyle setProperty defaultStyleSheet el cs =
     (if readable_sheets (defaultStyleSheet # styleSheets el)
      then Inr (foldl (apply_write setProperty) cs (computed_writes defaultStyleSheet el))
      else Inl TypeError) \<and>
   (\<forall>read ws w ws' r.
      readable_sheets (defaultStyleSheet # styleSheets el) \<and>
      computed_writes defaultStyleSheet el = ws @ w # ws' \<and>
      (\<forall>cs. read (apply_write setProperty cs w) = r) \<and>
      (\<forall>cs. \<forall>w'\<in>set ws'. read (apply_write setProperty cs w') = read cs) \<longrightarrow>
      (\<exists>cs'. getComputedStyle setProperty defaultStyleSheet el cs = Inr cs' \<and> read cs' = r)) \<and>
   (\<forall>read r.
      list_all readable_rule defaultStyleSheet \<and>
      (\<forall>cs. read (setProperty cs ''color'' ''blue'' []) = r) \<longrightarrow>
      (\<exists>ws cs'. computed_writes defaultStyleSheet blue_div = ws @ [(''color'', ''red'', []), (''color'', ''blue'', [])] \<and>
                getComputedStyle setProperty defaultStyleSheet blue_div cs = Inr cs' \<and> read cs' = r))"
proof (intro conjI allI impI)
  show "getComputedStyle setProperty defaultStyleSheet el cs =
     (if readable_sheets (defaultStyleSheet # styleSheets el)
      then Inr (foldl (apply_write setProperty) cs (computed_writes defaultStyleSheet el))
      else Inl TypeError)"
    by (rule getComputedStyle_writes)
next
  fix read :: "'a \<Rightarrow> 'b" and ws w ws' r
  assume a: "readable_sheets (defaultStyleSheet # styleSheets el) \<and>
      computed_writes defaultStyleSheet el = ws @ w # ws' \<and>
      (\<forall>cs. read (apply_write setProperty cs w) = r) \<and>
      (\<forall>cs. \<forall>w'\<in>set ws'. read (apply_write setProperty cs w') = read cs)"
  then have "read (foldl (apply_write setProperty) (apply_write setProperty (foldl (apply_write setProperty) cs ws) w) ws') =
             read (apply_write setProperty (foldl (apply_write setProperty) cs ws) w)"
    by (intro foldl_frame) blast
  with a show "\<exists>cs'. getComputedStyle setProperty defaultStyleSheet el cs = Inr cs' \<and> read cs' = r"
    by (simp add: getComputedStyle_writes)
next
  fix read :: "'a \<Rightarrow> 'c" and r
  assume a: "list_all readable_rule defaultStyleSheet \<and>
      (\<forall>cs. read (setProperty cs ''color'' ''blue'' []) = r)"
  then have rs: "readable_sheets (defaultStyleSheet # styleSheets blue_div)"
    by (simp add: readable_sheets_def blue_div_def red_rule_def readable_rule_def)
  from a rs show "\<exists>ws cs'. computed_writes defaultStyleSheet blue_div = ws @ [(''color'', ''red'', []), (''color'', ''blue'', [])] \<and>
                getComputedStyle setProperty defaultStyleSheet blue_div cs = Inr cs' \<and> read cs' = r"
    by (simp add: getComputedStyle_writes blue_div_writes apply_write_def)
qed

theorem getComputedStyle_order_witness:
  "readable_sheets (example_default_sheet # styleSheets blue_div) \<and>
   list_all readable_rule example_default_sheet \<and>
   computed_writes example_default_sheet blue_div =
     [(''display'', ''block'', []), (''color'', ''green'', [])] @ (''margin'', ''0'', ''important'') #
     [(''color'', ''red'', []), (''color'', ''blue'', [])] \<and>
   result_property
     (getComputedStyle (setProperty_parsing example_parse) example_default_sheet blue_div Map.empty) ''margin'' =
     Some (''0px'', ''important'') \<and>
   result_property
     (getComputedStyle (setProperty_parsing example_parse) example_default_sheet blue_div Map.empty) ''color'' =
     Some (''blue'', [])"
proof -
  let ?sp = "setProperty_parsing example_parse"
  have r: "list_all readable_rule example_default_sheet"
    by (simp add: example_default_sheet_def readable_rule_def)
  then have rs: "readable_sheets (example_default_sheet # styleSheets blue_div)"
    by (simp add: readable_sheets_def blue_div_def red_rule_def readable_rule_def)
  have w: "computed_writes example_default_sheet blue_div =
     [(''display'', ''block'', []), (''color'', ''green'', [])] @ (''margin'', ''0'', ''important'') #
     [(''color'', ''red'', []), (''color'', ''blue'', [])]"
    unfolding blue_div_writes
    by (simp add: example_default_sheet_def blue_div_def sheet_writes_def rule_writes_def
      rule_matches_def split_div matchesDontThrow_def style_writes_def getPropertyValue_def
      getPropertyPriority_def)
  have m: "\<forall>cs. (\<lambda>cs. cs ''margin'') (apply_write ?sp cs (''margin'', ''0'', ''important'')) = Some (''0px'', ''important'')"
    by (simp add: apply_write_def setProperty_parsing_def example_parse_def)
  have f: "\<forall>cs. \<forall>w'\<in>set [(''color'', ''red'', []), (''color'', ''blue'', [])].
             (\<lambda>cs. cs ''margin'') (apply_write ?sp cs w') = (\<lambda>cs. cs ''margin'') cs"
    by (simp add: apply_write_def setProperty_parsing_def example_parse_def)
  have b: "\<forall>cs. (\<lambda>cs. cs ''color'') (?sp cs ''color'' ''blue'' []) = Some (''blue'', [])"
    by (simp add: setProperty_parsing_def example_parse_def)
  note t = getComputedStyle_order[where setProperty = ?sp and defaultStyleSheet = example_default_sheet
      and cs = Map.empty]
  from t[where el = blue_div, THEN conjunct2, THEN conjunct1, rule_format,
      where read = "\<lambda>cs. cs ''margin''" and r = "Some (''0px'', ''important'')"
        and ws = "[(''display'', ''block'', []), (''color'', ''green'', [])]"
        and w = "(''margin'', ''0'', ''important'')"
        and ws' = "[(''color'', ''red'', []), (''color'', ''blue'', [])]"] rs w m f
  have 1: "result_property (getComputedStyle ?sp example_default_sheet blue_div Map.empty) ''margin'' =
     Some (''0px'', ''important'')"
    by (auto simp: result_property_def)
  from t[where el = blue_div, THEN conjunct2, THEN conjunct2, rule_format,
      where read = "\<lambda>cs. cs ''color''" and r = "Some (''blue'', [])"] r b
  have 2: "result_property (getComputedStyle ?sp example_default_sheet blue_div Map.empty) ''color'' =
     Some (''blue'', [])"
    by (auto simp: result_property_def)
  from r rs w 1 2 show ?thesis by blast
qed

end
